theory Spec2Isabelle
  imports Main "HOL-Library.AList"
begin

section \<open>Dead-code elimination over a dependency graph\<close>

text \<open>
  A shallow embedding of \<^verbatim>\<open>gapis/atom/transform/dead_code_elimination.go\<close> and
  \<^verbatim>\<open>gapis/resolve/dependencygraph/dependency_graph.go\<close>.

  Conventions of the embedding.
  \<^item> A function returns \<open>'a option\<close>; \<open>None\<close> means that the Go code does not return
    normally: it panics (index out of range, nil dereference, failed type assertion) or
    it loops forever.
  \<^item> \<^verbatim>\<open>StateAddress\<close> (uint32) and \<^verbatim>\<open>atom.ID\<close> (uint64) are natural numbers; the one
    place where a value is truncated to 32 bits (\<^verbatim>\<open>StateAddress(len(m.address))\<close>) has the
    \<open>mod 2 ^ 32\<close> written out. The clock of the liveness tree is a Go \<^verbatim>\<open>int\<close> that starts
    at 1 and grows by one per mark; it is a natural number here.
  \<^item> A Go map is an association list with distinct keys: \<open>map_of\<close> reads it,
    \<open>AList.update\<close> assigns to a key, \<open>length\<close> is \<^verbatim>\<open>len\<close>, and \<^verbatim>\<open>range\<close> visits the
    entries in list order. The set \<^verbatim>\<open>atom.IDSet\<close> is a set of natural numbers.
  \<^item> A pointer \<^verbatim>\<open>*livenessNode\<close> into the node array is the index of the node.
\<close>

subsection \<open>Data model\<close>

type_synonym StateAddress = nat

definition NullStateAddress :: StateAddress where
  "NullStateAddress = 0"

text \<open>\<^verbatim>\<open>AtomBehaviour\<close>; its own \<^verbatim>\<open>Roots\<close> field is named \<open>BRoots\<close>, the name \<open>Roots\<close>
  being kept for the field of the graph that the sweep reads.\<close>

record AtomBehaviour =
  Reads :: "StateAddress list"
  Modifies :: "StateAddress list"
  Writes :: "StateAddress list"
  BRoots :: "StateAddress list"
  KeepAlive :: bool
  Aborted :: bool

text \<open>\<^verbatim>\<open>addressMapping\<close>: the fields \<^verbatim>\<open>address\<close>, \<^verbatim>\<open>key\<close> and \<^verbatim>\<open>parent\<close>. A state key is
  \<open>'k option\<close>, \<open>None\<close> being the nil key.\<close>

record 'k addressMapping =
  m_address :: "('k option \<times> StateAddress) list"
  m_key :: "(StateAddress \<times> 'k option) list"
  m_parent :: "(StateAddress \<times> StateAddress) list"

record ('a, 'k) DependencyGraph =
  Atoms :: "'a list"
  Behaviours :: "AtomBehaviour list"
  Roots :: "(StateAddress \<times> bool) list"
  addressMap :: "'k addressMapping"

definition GetHierarchyStateMap :: "('a, 'k) DependencyGraph \<Rightarrow> (StateAddress \<times> StateAddress) list" where
  "GetHierarchyStateMap g = m_parent (addressMap g)"

subsection \<open>The liveness tree\<close>

record livenessNode =
  live :: bool
  anyLive :: bool
  timestamp :: nat
  parent :: "nat option"

record livenessTree =
  nodes :: "livenessNode list"
  time :: nat

definition zeroNode :: livenessNode where
  "zeroNode = \<lparr>live = False, anyLive = False, timestamp = 0, parent = None\<rparr>"

text \<open>The loop of \<^verbatim>\<open>newLivenessTree\<close>: \<^verbatim>\<open>nodes[address].parent = &nodes[parent]\<close> for every
  entry whose parent is not the null address; either index out of range panics.\<close>

fun linkParents :: "(StateAddress \<times> StateAddress) list \<Rightarrow> livenessNode list \<Rightarrow> livenessNode list option" where
  "linkParents [] ns = Some ns"
| "linkParents ((a, p) # rest) ns =
     (if p \<noteq> NullStateAddress then
        (if a < length ns \<and> p < length ns
         then linkParents rest (ns[a := (ns ! a)\<lparr>parent := Some p\<rparr>])
         else None)
      else linkParents rest ns)"

definition newLivenessTree :: "(StateAddress \<times> StateAddress) list \<Rightarrow> livenessTree option" where
  "newLivenessTree parents =
     (case linkParents parents (replicate (length parents) zeroNode) of
        None \<Rightarrow> None
      | Some ns \<Rightarrow> Some \<lparr>nodes = ns, time = 1\<rparr>)"

text \<open>The loop of \<^verbatim>\<open>IsLive\<close>: \<open>p\<close> is the pointer \<^verbatim>\<open>p\<close>, \<open>node\<close> and \<open>lv\<close> are the
  variables \<^verbatim>\<open>node\<close> and \<^verbatim>\<open>live\<close>. On a cyclic parent chain the loop does not end.\<close>

partial_function (option) isLiveLoop ::
  "livenessNode list \<Rightarrow> nat option \<Rightarrow> livenessNode \<Rightarrow> bool \<Rightarrow> bool option" where
  "isLiveLoop ns p node lv =
     (case p of
        None \<Rightarrow> Some lv
      | Some i \<Rightarrow>
          (if i < length ns then
             (if timestamp (ns ! i) > timestamp node
              then isLiveLoop ns (parent (ns ! i)) (ns ! i) (live (ns ! i))
              else isLiveLoop ns (parent (ns ! i)) node lv)
           else None))"

declare isLiveLoop.simps [code]

definition IsLive :: "livenessTree \<Rightarrow> StateAddress \<Rightarrow> bool option" where
  "IsLive l a =
     (if a < length (nodes l)
      then isLiveLoop (nodes l) (parent (nodes l ! a)) (nodes l ! a) (anyLive (nodes l ! a))
      else None)"

definition MarkDead :: "livenessTree \<Rightarrow> StateAddress \<Rightarrow> livenessTree option" where
  "MarkDead l a =
     (if a < length (nodes l)
      then Some \<lparr>nodes = (nodes l)[a := (nodes l ! a)\<lparr>live := False, anyLive := False, timestamp := time l\<rparr>],
                 time = time l + 1\<rparr>
      else None)"

text \<open>\<^verbatim>\<open>setAnyLive\<close> on the node with index \<open>i\<close>: first the parent (recursively), then
  the comparison with the parent's (possibly updated) timestamp, then the flag.\<close>

partial_function (option) setAnyLive :: "livenessNode list \<Rightarrow> nat \<Rightarrow> livenessNode list option" where
  "setAnyLive ns i =
     (if i < length ns then
        (case parent (ns ! i) of
           None \<Rightarrow> Some (ns[i := (ns ! i)\<lparr>anyLive := True\<rparr>])
         | Some p \<Rightarrow>
             Option.bind (setAnyLive ns p) (\<lambda>ns'.
               if p < length ns' \<and> i < length ns' then
                 (if timestamp (ns' ! i) < timestamp (ns' ! p)
                  then Some (ns'[i := (ns' ! i)\<lparr>live := live (ns' ! p),
                                                timestamp := timestamp (ns' ! p),
                                                anyLive := True\<rparr>])
                  else Some (ns'[i := (ns' ! i)\<lparr>anyLive := True\<rparr>]))
               else None))
      else None)"

declare setAnyLive.simps [code]

definition MarkLive :: "livenessTree \<Rightarrow> StateAddress \<Rightarrow> livenessTree option" where
  "MarkLive l a =
     (if a < length (nodes l) then
        (let ns = (nodes l)[a := (nodes l ! a)\<lparr>live := True, anyLive := True, timestamp := time l\<rparr>]
         in case parent (ns ! a) of
              None \<Rightarrow> Some \<lparr>nodes = ns, time = time l + 1\<rparr>
            | Some p \<Rightarrow>
                (case setAnyLive ns p of
                   None \<Rightarrow> None
                 | Some ns' \<Rightarrow> Some \<lparr>nodes = ns', time = time l + 1\<rparr>))
      else None)"

subsection \<open>The transform\<close>

record ('a, 'k) DeadCodeElimination =
  dependencyGraph :: "('a, 'k) DependencyGraph"
  requests :: "nat set"
  lastRequest :: nat

definition NewDeadCodeElimination :: "('a, 'k) DependencyGraph \<Rightarrow> ('a, 'k) DeadCodeElimination" where
  "NewDeadCodeElimination g = \<lparr>dependencyGraph = g, requests = {}, lastRequest = 0\<rparr>"

definition Request :: "('a, 'k) DeadCodeElimination \<Rightarrow> nat \<Rightarrow> ('a, 'k) DeadCodeElimination" where
  "Request t i =
     t\<lparr>requests := insert i (requests t),
       lastRequest := (if i > lastRequest t then i else lastRequest t)\<rparr>"

datatype panic = Panic string

text \<open>\<^verbatim>\<open>Transform\<close> takes the transform, the atom id, the atom and the writer (here the
  list of atoms written so far) and returns either the panic or the writer.\<close>

definition Transform ::
  "('a, 'k) DeadCodeElimination \<Rightarrow> nat \<Rightarrow> 'a \<Rightarrow> (nat \<times> 'a) list \<Rightarrow> panic + (nat \<times> 'a) list" where
  "Transform t i a out = Inl (Panic ''This transform does not accept input atoms'')"

text \<open>The three loops over the footprint of one command.\<close>

fun markLiveAll :: "StateAddress list \<Rightarrow> livenessTree \<Rightarrow> livenessTree option" where
  "markLiveAll [] st = Some st"
| "markLiveAll (a # as) st =
     (case MarkLive st a of None \<Rightarrow> None | Some st' \<Rightarrow> markLiveAll as st')"

fun sweepWrites :: "StateAddress list \<Rightarrow> livenessTree \<Rightarrow> bool \<Rightarrow> (livenessTree \<times> bool) option" where
  "sweepWrites [] st lv = Some (st, lv)"
| "sweepWrites (w # ws) st lv =
     (case IsLive st w of
        None \<Rightarrow> None
      | Some True \<Rightarrow>
          (case MarkDead st w of None \<Rightarrow> None | Some st' \<Rightarrow> sweepWrites ws st' True)
      | Some False \<Rightarrow> sweepWrites ws st lv)"

fun sweepModifies :: "StateAddress list \<Rightarrow> livenessTree \<Rightarrow> bool \<Rightarrow> bool option" where
  "sweepModifies [] st lv = Some lv"
| "sweepModifies (m # ms) st lv =
     (case IsLive st m of
        None \<Rightarrow> None
      | Some True \<Rightarrow> sweepModifies ms st True
      | Some False \<Rightarrow> sweepModifies ms st lv)"

text \<open>One iteration of the loop of \<^verbatim>\<open>propagateLiveness\<close>, at index \<open>i\<close>. The entry
  \<^verbatim>\<open>isLive[i]\<close> is first \<^verbatim>\<open>b.KeepAlive\<close>; after the test of \<^verbatim>\<open>b.Aborted\<close> its value is carried
  through the loops as \<open>lv\<close> and stored at the end. An index out of range panics.\<close>

definition sweepStep ::
  "('a, 'k) DeadCodeElimination \<Rightarrow> nat \<Rightarrow> bool list \<times> livenessTree \<Rightarrow> (bool list \<times> livenessTree) option" where
  "sweepStep t i s =
     (case s of (isLive, state) \<Rightarrow>
      if i < length (Behaviours (dependencyGraph t)) \<and> i < length isLive then
        (let b = Behaviours (dependencyGraph t) ! i;
             isLive1 = isLive[i := KeepAlive b]
         in if Aborted b then Some (isLive1, state)
            else
              (case (if i \<in> requests t
                     then markLiveAll (map fst (Roots (dependencyGraph t))) state
                     else Some state) of
                 None \<Rightarrow> None
               | Some state1 \<Rightarrow>
                   (case sweepWrites (Writes b) state1 (KeepAlive b \<or> i \<in> requests t) of
                      None \<Rightarrow> None
                    | Some (state2, lv2) \<Rightarrow>
                        (case sweepModifies (Modifies b) state2 lv2 of
                           None \<Rightarrow> None
                         | Some lv3 \<Rightarrow>
                             (if lv3 then
                                (case markLiveAll (Modifies b) state2 of
                                   None \<Rightarrow> None
                                 | Some state3 \<Rightarrow>
                                     (case markLiveAll (Reads b) state3 of
                                        None \<Rightarrow> None
                                      | Some state4 \<Rightarrow> Some (isLive1[i := lv3], state4)))
                              else Some (isLive1[i := lv3], state2))))))
      else None)"

text \<open>The loop \<^verbatim>\<open>for i := int(t.lastRequest); i >= 0; i--\<close>.\<close>

fun sweep ::
  "('a, 'k) DeadCodeElimination \<Rightarrow> nat \<Rightarrow> bool list \<times> livenessTree \<Rightarrow> (bool list \<times> livenessTree) option" where
  "sweep t 0 s = sweepStep t 0 s"
| "sweep t (Suc i) s =
     (case sweepStep t (Suc i) s of None \<Rightarrow> None | Some s' \<Rightarrow> sweep t i s')"

text \<open>\<^verbatim>\<open>propagateLiveness\<close>. The statistics block after the loop reads
  \<^verbatim>\<open>Atoms[i]\<close> for every index of the result, and changes nothing else.\<close>

definition propagateLiveness :: "('a, 'k) DeadCodeElimination \<Rightarrow> bool list option" where
  "propagateLiveness t =
     (case newLivenessTree (GetHierarchyStateMap (dependencyGraph t)) of
        None \<Rightarrow> None
      | Some state \<Rightarrow>
          (case sweep t (lastRequest t) (replicate (lastRequest t + 1) False, state) of
             None \<Rightarrow> None
           | Some (isLive, state') \<Rightarrow>
               if length isLive \<le> length (Atoms (dependencyGraph t)) then Some isLive else None))"

text \<open>\<^verbatim>\<open>Flush\<close>: the atoms handed to \<^verbatim>\<open>out.MutateAndWrite\<close>, in order.\<close>

definition Flush :: "('a, 'k) DeadCodeElimination \<Rightarrow> (nat \<times> 'a) list option" where
  "Flush t =
     (case propagateLiveness t of
        None \<Rightarrow> None
      | Some isLive \<Rightarrow>
          Some (map (\<lambda>i. (i, Atoms (dependencyGraph t) ! i))
                    (filter (\<lambda>i. isLive ! i) [0..<length isLive])))"

subsection \<open>Ancestor chains and the liveness a tree assigns\<close>

text \<open>\<open>ancestors ns fuel p\<close> follows the parent pointers from the pointer \<open>p\<close>, at most \<open>fuel\<close>
  nodes far, and lists the nodes met; \<open>None\<close> when the chain leaves the array or is longer.
  In \<open>wellFormed ns\<close> the chain from every node ends within \<open>length ns\<close> nodes: the links are
  a forest. \<open>anc ns a\<close> lists the ancestors of \<open>a\<close>, the parent first.\<close>

fun ancestors :: "livenessNode list \<Rightarrow> nat \<Rightarrow> nat option \<Rightarrow> nat list option" where
  "ancestors ns fuel None = Some []"
| "ancestors ns 0 (Some i) = None"
| "ancestors ns (Suc fuel) (Some i) =
     (if i < length ns
      then (case ancestors ns fuel (parent (ns ! i)) of None \<Rightarrow> None | Some ch \<Rightarrow> Some (i # ch))
      else None)"

definition wellFormed :: "livenessNode list \<Rightarrow> bool" where
  "wellFormed ns = list_all (\<lambda>a. ancestors ns (length ns) (Some a) \<noteq> None) [0..<length ns]"

definition anc :: "livenessNode list \<Rightarrow> nat \<Rightarrow> nat list" where
  "anc ns a = (case ancestors ns (length ns) (parent (ns ! a)) of None \<Rightarrow> [] | Some ch \<Rightarrow> ch)"

text \<open>\<open>eff ns ch\<close>: the timestamp and the \<open>live\<close> bit of the node of the chain \<open>ch\<close> with the
  greatest timestamp (the lowest such node; \<open>(0, False)\<close> on the empty chain). \<open>alive ns a\<close> is
  the value \<^verbatim>\<open>IsLive\<close> computes for \<open>a\<close> when the links are a forest.\<close>

fun eff :: "livenessNode list \<Rightarrow> nat list \<Rightarrow> nat \<times> bool" where
  "eff ns [] = (0, False)"
| "eff ns (x # ch) =
     (if timestamp (ns ! x) < fst (eff ns ch) then eff ns ch
      else (timestamp (ns ! x), live (ns ! x)))"

definition alive :: "livenessNode list \<Rightarrow> nat \<Rightarrow> bool" where
  "alive ns a =
     (if timestamp (ns ! a) < fst (eff ns (anc ns a)) then snd (eff ns (anc ns a))
      else anyLive (ns ! a))"

text \<open>\<open>rematerialised ns i ns'\<close>: what \<^verbatim>\<open>setAnyLive\<close> on the node \<open>i\<close> makes of \<open>ns\<close>. The node
  \<open>i\<close> and its ancestors have \<open>anyLive\<close> set and carry the newest timestamp and \<open>live\<close> bit
  at or above them; nothing else changes.\<close>

definition rematerialised :: "livenessNode list \<Rightarrow> nat \<Rightarrow> livenessNode list \<Rightarrow> bool" where
  "rematerialised ns i ns' \<longleftrightarrow>
     length ns' = length ns \<and> map parent ns' = map parent ns \<and>
     (\<forall>x < length ns. x \<notin> set (i # anc ns i) \<longrightarrow> ns' ! x = ns ! x) \<and>
     (\<forall>x \<in> set (i # anc ns i). anyLive (ns' ! x) \<and>
         timestamp (ns' ! x) = fst (eff ns (x # anc ns x)) \<and>
         live (ns' ! x) = snd (eff ns (x # anc ns x)))"

text \<open>The invariant of the tree: the links are a forest and every timestamp is below the
  clock.\<close>

definition treeInv :: "livenessTree \<Rightarrow> bool" where
  "treeInv l \<longleftrightarrow> wellFormed (nodes l) \<and> 0 < time l \<and>
                list_all (\<lambda>v. timestamp v < time l) (nodes l)"

subsection \<open>Sequences of marks and reference definitions of liveness\<close>

datatype mark = Live StateAddress | Dead StateAddress

fun markAddress :: "mark \<Rightarrow> StateAddress" where
  "markAddress (Live a) = a"
| "markAddress (Dead a) = a"

fun applyMark :: "livenessTree \<Rightarrow> mark \<Rightarrow> livenessTree option" where
  "applyMark l (Live a) = MarkLive l a"
| "applyMark l (Dead a) = MarkDead l a"

fun applyMarks :: "mark list \<Rightarrow> livenessTree \<Rightarrow> livenessTree option" where
  "applyMarks [] l = Some l"
| "applyMarks (m # ms) l =
     (case applyMark l m of None \<Rightarrow> None | Some l' \<Rightarrow> applyMarks ms l')"

text \<open>\<open>inSubtree ns a d\<close>: the address \<open>d\<close> lies in the subtree rooted at \<open>a\<close>, along the
  parent links of the tree. \<^verbatim>\<open>newLivenessTree\<close> sets no link to the null address, so an address
  whose parent in the map is the null address is a root of the tree.\<close>

definition inSubtree :: "livenessNode list \<Rightarrow> StateAddress \<Rightarrow> StateAddress \<Rightarrow> bool" where
  "inSubtree ns a d \<longleftrightarrow> d = a \<or> a \<in> set (anc ns d)"

text \<open>The naive O(N) tree of the specification: a mark on \<open>z\<close> relabels every address of
  the subtree of \<open>z\<close>, and an address is live when some address of its subtree is labelled
  live. \<open>naiveLabel ns d b ms\<close> is the label of \<open>d\<close> after the marks \<open>ms\<close>, from the label
  \<open>b\<close>.\<close>

fun naiveLabel :: "livenessNode list \<Rightarrow> StateAddress \<Rightarrow> bool \<Rightarrow> mark list \<Rightarrow> bool" where
  "naiveLabel ns d b [] = b"
| "naiveLabel ns d b (Live z # ms) = naiveLabel ns d (if inSubtree ns z d then True else b) ms"
| "naiveLabel ns d b (Dead z # ms) = naiveLabel ns d (if inSubtree ns z d then False else b) ms"

definition naiveIsLive :: "livenessNode list \<Rightarrow> mark list \<Rightarrow> StateAddress \<Rightarrow> bool" where
  "naiveIsLive ns ms a =
     list_ex (\<lambda>d. inSubtree ns a d \<and> naiveLabel ns d False ms) [0..<length ns]"

text \<open>The same sentence read word by word: some address \<open>d\<close> of the subtree of \<open>a\<close> whose
  own latest mark is a live mark, with no dead mark of an ancestor of \<open>a\<close> after it.\<close>

fun recentlyLive ::
  "livenessNode list \<Rightarrow> StateAddress \<Rightarrow> StateAddress \<Rightarrow> bool \<Rightarrow> mark list \<Rightarrow> bool" where
  "recentlyLive ns a d b [] = b"
| "recentlyLive ns a d b (Live z # ms) = recentlyLive ns a d (if z = d then True else b) ms"
| "recentlyLive ns a d b (Dead z # ms) =
     recentlyLive ns a d (if z = d \<or> z \<in> set (anc ns a) then False else b) ms"

definition literalIsLive :: "livenessNode list \<Rightarrow> mark list \<Rightarrow> StateAddress \<Rightarrow> bool" where
  "literalIsLive ns ms a =
     list_ex (\<lambda>d. inSubtree ns a d \<and> recentlyLive ns a d False ms) [0..<length ns]"

text \<open>What the tree computes on a forest. \<open>marked ns a b ms\<close>: among the live marks of \<open>a\<close>, of an
  address below \<open>a\<close> or of an ancestor of \<open>a\<close>, and the dead marks of \<open>a\<close> or of an ancestor
  of \<open>a\<close>, the latest one in \<open>ms\<close> is a live mark (\<open>b\<close> when there is none). A dead mark of
  an address strictly below \<open>a\<close> does not count.\<close>

fun marked :: "livenessNode list \<Rightarrow> StateAddress \<Rightarrow> bool \<Rightarrow> mark list \<Rightarrow> bool" where
  "marked ns a b [] = b"
| "marked ns a b (Live z # ms) =
     marked ns a (if inSubtree ns a z \<or> z \<in> set (anc ns a) then True else b) ms"
| "marked ns a b (Dead z # ms) =
     marked ns a (if z = a \<or> z \<in> set (anc ns a) then False else b) ms"

subsection \<open>A small tree used in the examples\<close>

text \<open>Address 0 is the null address; address 1 is a top-level state and address 2 its
  child.\<close>

definition exParents :: "(StateAddress \<times> StateAddress) list" where
  "exParents = [(0, 0), (1, 0), (2, 1)]"

definition exTree :: livenessTree where
  "exTree = \<lparr>nodes = [zeroNode, zeroNode, zeroNode\<lparr>parent := Some 1\<rparr>], time = 1\<rparr>"

subsection \<open>The sweep over sets of live addresses\<close>

text \<open>The liveness tree seen from outside is a set \<open>X\<close> of addresses that \<^verbatim>\<open>IsLive\<close> reports
  live: a live mark of \<open>z\<close> adds \<open>z\<close>, the addresses below \<open>z\<close> and the ancestors of \<open>z\<close>;
  a dead mark of \<open>z\<close> removes \<open>z\<close> and the addresses below it. The functions below repeat
  the loops of \<^verbatim>\<open>propagateLiveness\<close> on such sets; the lemmas relate them to the code.\<close>

definition aLive :: "livenessNode list \<Rightarrow> (StateAddress \<Rightarrow> bool) \<Rightarrow> StateAddress \<Rightarrow> StateAddress \<Rightarrow> bool" where
  "aLive ns X z = (\<lambda>a. X a \<or> a = z \<or> z \<in> set (anc ns a) \<or> a \<in> set (anc ns z))"

definition aDead :: "livenessNode list \<Rightarrow> (StateAddress \<Rightarrow> bool) \<Rightarrow> StateAddress \<Rightarrow> StateAddress \<Rightarrow> bool" where
  "aDead ns X z = (\<lambda>a. X a \<and> a \<noteq> z \<and> z \<notin> set (anc ns a))"

fun aLiveAll :: "livenessNode list \<Rightarrow> StateAddress list \<Rightarrow> (StateAddress \<Rightarrow> bool) \<Rightarrow> StateAddress \<Rightarrow> bool" where
  "aLiveAll ns [] X = X"
| "aLiveAll ns (z # zs) X = aLiveAll ns zs (aLive ns X z)"

fun aWrites ::
  "livenessNode list \<Rightarrow> StateAddress list \<Rightarrow> (StateAddress \<Rightarrow> bool) \<Rightarrow> bool \<Rightarrow> (StateAddress \<Rightarrow> bool) \<times> bool" where
  "aWrites ns [] X lv = (X, lv)"
| "aWrites ns (w # ws) X lv =
     (if X w then aWrites ns ws (aDead ns X w) True else aWrites ns ws X lv)"

fun aModifies :: "StateAddress list \<Rightarrow> (StateAddress \<Rightarrow> bool) \<Rightarrow> bool \<Rightarrow> bool" where
  "aModifies [] X lv = lv"
| "aModifies (m # ms) X lv = (if X m then aModifies ms X True else aModifies ms X lv)"

definition aStep ::
  "livenessNode list \<Rightarrow> ('a, 'k) DeadCodeElimination \<Rightarrow> nat \<Rightarrow> bool list \<times> (StateAddress \<Rightarrow> bool) \<Rightarrow>
   bool list \<times> (StateAddress \<Rightarrow> bool)" where
  "aStep ns t i s =
     (let b = Behaviours (dependencyGraph t) ! i;
          X1 = (if i \<in> requests t then aLiveAll ns (map fst (Roots (dependencyGraph t))) (snd s)
                else snd s);
          r2 = aWrites ns (Writes b) X1 (KeepAlive b \<or> i \<in> requests t);
          lv3 = aModifies (Modifies b) (fst r2) (snd r2)
      in if Aborted b then ((fst s)[i := KeepAlive b], snd s)
         else ((fst s)[i := lv3],
               if lv3 then aLiveAll ns (Reads b) (aLiveAll ns (Modifies b) (fst r2)) else fst r2))"

fun aSweep ::
  "livenessNode list \<Rightarrow> ('a, 'k) DeadCodeElimination \<Rightarrow> nat \<Rightarrow> bool list \<times> (StateAddress \<Rightarrow> bool) \<Rightarrow>
   bool list \<times> (StateAddress \<Rightarrow> bool)" where
  "aSweep ns t 0 s = aStep ns t 0 s"
| "aSweep ns t (Suc i) s = aSweep ns t i (aStep ns t (Suc i) s)"

text \<open>\<open>rel ns l X\<close>: the tree \<open>l\<close> has the parent links of \<open>ns\<close>, its timestamps are below
  its clock, and it reports live exactly the addresses of \<open>X\<close>.\<close>

definition rel :: "livenessNode list \<Rightarrow> livenessTree \<Rightarrow> (StateAddress \<Rightarrow> bool) \<Rightarrow> bool" where
  "rel ns l X \<longleftrightarrow> treeInv l \<and> map parent (nodes l) = map parent ns \<and>
                 (\<forall>a < length ns. alive (nodes l) a = X a)"

text \<open>A graph the sweep can run on: the tree is built from its parent map, every parent
  chain ends, there are as many atoms as behaviours, and every address of a footprint
  or of the roots is an address of the tree.\<close>

definition addressesOK :: "nat \<Rightarrow> ('a, 'k) DependencyGraph \<Rightarrow> bool" where
  "addressesOK n g \<longleftrightarrow>
     list_all (\<lambda>b. list_all (\<lambda>a. a < n) (Reads b) \<and> list_all (\<lambda>a. a < n) (Modifies b) \<and>
                   list_all (\<lambda>a. a < n) (Writes b)) (Behaviours g) \<and>
     list_all (\<lambda>r. fst r < n) (Roots g)"

definition graphOK :: "('a, 'k) DependencyGraph \<Rightarrow> livenessTree \<Rightarrow> bool" where
  "graphOK g l0 \<longleftrightarrow>
     newLivenessTree (GetHierarchyStateMap g) = Some l0 \<and> wellFormed (nodes l0) \<and>
     length (Atoms g) = length (Behaviours g) \<and> addressesOK (length (nodes l0)) g"

text \<open>Order and upward closure of sets of live addresses, on the addresses of the tree.\<close>

definition le :: "nat \<Rightarrow> (StateAddress \<Rightarrow> bool) \<Rightarrow> (StateAddress \<Rightarrow> bool) \<Rightarrow> bool" where
  "le n X Y \<longleftrightarrow> (\<forall>a < n. X a \<longrightarrow> Y a)"

definition upClosed :: "livenessNode list \<Rightarrow> (StateAddress \<Rightarrow> bool) \<Rightarrow> bool" where
  "upClosed ns X \<longleftrightarrow> (\<forall>d < length ns. \<forall>a \<in> set (anc ns d). X d \<longrightarrow> X a)"

text \<open>The transform after \<^verbatim>\<open>NewDeadCodeElimination\<close> and one \<^verbatim>\<open>Request\<close> per id of the
  list.\<close>

definition requestAll :: "('a, 'k) DependencyGraph \<Rightarrow> nat list \<Rightarrow> ('a, 'k) DeadCodeElimination" where
  "requestAll g ids = foldl Request (NewDeadCodeElimination g) ids"

subsection \<open>Small graphs used in the examples\<close>

definition exMapping :: "string addressMapping" where
  "exMapping = \<lparr>m_address = [(None, 0), (Some ''P'', 1), (Some ''C'', 2)],
                m_key = [(0, None), (1, Some ''P''), (2, Some ''C'')],
                m_parent = exParents\<rparr>"

definition noBehaviour :: AtomBehaviour where
  "noBehaviour = \<lparr>Reads = [], Modifies = [], Writes = [], BRoots = [], KeepAlive = False, Aborted = False\<rparr>"

text \<open>Command 0 writes the parent state, command 1 reads the child state.\<close>

definition exGraph :: "(string, string) DependencyGraph" where
  "exGraph = \<lparr>Atoms = [''cmd0'', ''cmd1''],
              Behaviours = [noBehaviour\<lparr>Writes := [1]\<rparr>, noBehaviour\<lparr>Reads := [2]\<rparr>],
              Roots = [], addressMap = exMapping\<rparr>"

text \<open>A single command whose mutation aborted.\<close>

definition exAborted :: "(string, string) DependencyGraph" where
  "exAborted = \<lparr>Atoms = [''cmd0''], Behaviours = [noBehaviour\<lparr>Aborted := True\<rparr>],
                Roots = [], addressMap = exMapping\<rparr>"

text \<open>Command 0 is kept alive and aborted; command 1 has no footprint.\<close>

definition exKeptAborted :: "(string, string) DependencyGraph" where
  "exKeptAborted = \<lparr>Atoms = [''cmd0'', ''cmd1''],
                    Behaviours = [noBehaviour\<lparr>KeepAlive := True, Aborted := True\<rparr>, noBehaviour],
                    Roots = [], addressMap = exMapping\<rparr>"

text \<open>Two commands, both kept alive, neither aborted.\<close>

definition exTwoKept :: "(string, string) DependencyGraph" where
  "exTwoKept = \<lparr>Atoms = [''cmd0'', ''cmd1''],
                Behaviours = [noBehaviour\<lparr>KeepAlive := True\<rparr>, noBehaviour\<lparr>KeepAlive := True\<rparr>],
                Roots = [], addressMap = exMapping\<rparr>"

subsection \<open>The state address map\<close>

text \<open>The address map with which \<^verbatim>\<open>Resolve\<close> starts: the nil key at the null address, its
  own parent.\<close>

definition newAddressMapping :: "'k addressMapping" where
  "newAddressMapping = \<lparr>m_address = [(None, NullStateAddress)],
                         m_key = [(NullStateAddress, None)],
                         m_parent = [(NullStateAddress, NullStateAddress)]\<rparr>"

text \<open>\<^verbatim>\<open>addressOf\<close>. The method \<^verbatim>\<open>Parent\<close> of the keys is the parameter \<open>Parent\<close>; calling it
  on the nil key is a nil dereference. \<^verbatim>\<open>StateAddress(len(m.address))\<close> keeps the low 32
  bits. The recursion does not end on a chain of parents that never reaches an interned
  key.\<close>

partial_function (option) addressOf ::
  "('k \<Rightarrow> 'k option) \<Rightarrow> 'k addressMapping \<Rightarrow> 'k option \<Rightarrow> (StateAddress \<times> 'k addressMapping) option" where
  "addressOf Parent m state =
     (case map_of (m_address m) state of
        Some a \<Rightarrow> Some (a, m)
      | None \<Rightarrow>
          (case state of
             None \<Rightarrow> None
           | Some k \<Rightarrow>
               Option.bind
                 (addressOf Parent
                    (m\<lparr>m_address := AList.update state (length (m_address m) mod 2 ^ 32) (m_address m),
                       m_key := AList.update (length (m_address m) mod 2 ^ 32) state (m_key m)\<rparr>)
                    (Parent k))
                 (\<lambda>r. Some (length (m_address m) mod 2 ^ 32,
                           (snd r)\<lparr>m_parent :=
                              AList.update (length (m_address m) mod 2 ^ 32) (fst r) (m_parent (snd r))\<rparr>))))"

declare addressOf.simps [code]

text \<open>\<^verbatim>\<open>AtomBehaviour.Read\<close>, \<^verbatim>\<open>Modify\<close> and \<^verbatim>\<open>Write\<close>: the behaviour and the graph after
  the call.\<close>

definition Read ::
  "('k \<Rightarrow> 'k option) \<Rightarrow> AtomBehaviour \<Rightarrow> ('a, 'k) DependencyGraph \<Rightarrow> 'k option \<Rightarrow>
   (AtomBehaviour \<times> ('a, 'k) DependencyGraph) option" where
  "Read Parent b g state =
     (if state \<noteq> None then
        (case addressOf Parent (addressMap g) state of
           None \<Rightarrow> None
         | Some (a, m) \<Rightarrow> Some (b\<lparr>Reads := Reads b @ [a]\<rparr>, g\<lparr>addressMap := m\<rparr>))
      else Some (b, g))"

definition Modify ::
  "('k \<Rightarrow> 'k option) \<Rightarrow> AtomBehaviour \<Rightarrow> ('a, 'k) DependencyGraph \<Rightarrow> 'k option \<Rightarrow>
   (AtomBehaviour \<times> ('a, 'k) DependencyGraph) option" where
  "Modify Parent b g state =
     (if state \<noteq> None then
        (case addressOf Parent (addressMap g) state of
           None \<Rightarrow> None
         | Some (a, m) \<Rightarrow> Some (b\<lparr>Modifies := Modifies b @ [a]\<rparr>, g\<lparr>addressMap := m\<rparr>))
      else Some (b, g))"

definition Write ::
  "('k \<Rightarrow> 'k option) \<Rightarrow> AtomBehaviour \<Rightarrow> ('a, 'k) DependencyGraph \<Rightarrow> 'k option \<Rightarrow>
   (AtomBehaviour \<times> ('a, 'k) DependencyGraph) option" where
  "Write Parent b g state =
     (if state \<noteq> None then
        (case addressOf Parent (addressMap g) state of
           None \<Rightarrow> None
         | Some (a, m) \<Rightarrow> Some (b\<lparr>Writes := Writes b @ [a]\<rparr>, g\<lparr>addressMap := m\<rparr>))
      else Some (b, g))"

text \<open>One call of \<^verbatim>\<open>addressOf\<close> per key of a list, from the map \<open>m\<close>: the addresses the calls
  return, in order, and the address map after the last call.\<close>

fun addressOfAll ::
  "('k \<Rightarrow> 'k option) \<Rightarrow> 'k addressMapping \<Rightarrow> 'k option list \<Rightarrow>
   (StateAddress list \<times> 'k addressMapping) option" where
  "addressOfAll Parent m [] = Some ([], m)"
| "addressOfAll Parent m (s # ss) =
     (case addressOf Parent m s of
        None \<Rightarrow> None
      | Some (a, m') \<Rightarrow>
          (case addressOfAll Parent m' ss of
             None \<Rightarrow> None
           | Some (as, m'') \<Rightarrow> Some (a # as, m'')))"

text \<open>The invariant of the address map: the keys are listed once, the addresses are the
  numbers below the number of keys, no address is given twice, and the null address
  belongs to the nil key and is its own parent.\<close>

definition mappingInv :: "'k addressMapping \<Rightarrow> bool" where
  "mappingInv m \<longleftrightarrow>
     distinct (map fst (m_address m)) \<and>
     (\<forall>s a. map_of (m_address m) s = Some a \<longrightarrow> a < length (m_address m)) \<and>
     (\<forall>s s' a. map_of (m_address m) s = Some a \<and> map_of (m_address m) s' = Some a \<longrightarrow> s = s') \<and>
     map_of (m_address m) None = Some NullStateAddress \<and>
     map_of (m_parent m) NullStateAddress = Some NullStateAddress"

text \<open>\<open>chainEnds Parent n s\<close>: the chain of parents of the key \<open>s\<close> reaches the nil key in
  at most \<open>n\<close> steps.\<close>

fun chainEnds :: "('k \<Rightarrow> 'k option) \<Rightarrow> nat \<Rightarrow> 'k option \<Rightarrow> bool" where
  "chainEnds Parent n None = True"
| "chainEnds Parent 0 (Some k) = False"
| "chainEnds Parent (Suc n) (Some k) = chainEnds Parent n (Parent k)"

text \<open>\<open>extends m m'\<close>: every key interned in \<open>m\<close> has the same address in \<open>m'\<close>.\<close>

definition extends :: "'k addressMapping \<Rightarrow> 'k addressMapping \<Rightarrow> bool" where
  "extends m m' \<longleftrightarrow> (\<forall>k x. map_of (m_address m) k = Some x \<longrightarrow> map_of (m_address m') k = Some x)"

text \<open>Keys for the examples: the key \<open>''C''\<close> has the parent \<open>''P''\<close>, whose parent is the nil
  key; \<open>exInterned\<close> is the address map after interning \<open>''C''\<close>.\<close>

definition exParent :: "string \<Rightarrow> string option" where
  "exParent k = (if k = ''C'' then Some ''P'' else None)"

definition exInterned :: "string addressMapping" where
  "exInterned = \<lparr>m_address = [(None, 0), (Some ''C'', 1), (Some ''P'', 2)],
                 m_key = [(0, None), (1, Some ''C''), (2, Some ''P'')],
                 m_parent = [(0, 0), (2, 0), (1, 2)]\<rparr>"

text \<open>Keys that are numbers and have the nil key as parent, and the number \<open>2^32 - 1\<close>: with
  the nil key, the keys \<open>0\<close> to \<open>manyKeys - 1\<close> fill the addresses below \<open>2^32\<close>.\<close>

definition noParent :: "nat \<Rightarrow> nat option" where
  "noParent k = None"

definition manyKeys :: nat where
  "manyKeys = 2 ^ 32 - 1"

subsection \<open>Building the graph\<close>

text \<open>What \<^verbatim>\<open>Resolve\<close> takes from outside: the API of an atom, the behaviour provider of an
  API when it has one (the type assertion to \<^verbatim>\<open>DependencyGraphBehaviourProvider\<close>),
  \<^verbatim>\<open>GetBehaviourForAtom\<close> (which returns the behaviour and leaves the provider, the state
  and the graph changed) and \<^verbatim>\<open>Mutate\<close> (which returns an error or nil and leaves the state
  changed).\<close>

datatype mutateError = Canceled | MutateError string

record ('a, 'api, 'p, 's, 'k) captureEnv =
  API :: "'a \<Rightarrow> 'api"
  behaviourProviderOf :: "'api \<Rightarrow> 'p option"
  GetBehaviourForAtom ::
    "'p \<Rightarrow> 's \<Rightarrow> nat \<Rightarrow> ('a, 'k) DependencyGraph \<Rightarrow> 'a \<Rightarrow>
     AtomBehaviour \<times> 'p \<times> 's \<times> ('a, 'k) DependencyGraph"
  Mutate :: "'a \<Rightarrow> 's \<Rightarrow> mutateError option \<times> 's"

text \<open>The value of type \<^verbatim>\<open>interface{}\<close> that \<^verbatim>\<open>Resolve\<close> returns (with a nil error).\<close>

datatype ('a, 'k) resolved =
  ResolvedGraph "('a, 'k) DependencyGraph"
| ResolvedBehaviour AtomBehaviour

text \<open>The loop of \<^verbatim>\<open>Resolve\<close> over the atoms from index \<open>i\<close> on; \<open>ps\<close> is the map
  \<^verbatim>\<open>behaviourProviders\<close>.\<close>

fun resolveLoop ::
  "('a, 'api, 'p, 's, 'k) captureEnv \<Rightarrow> ('api \<times> 'p) list \<Rightarrow> 's \<Rightarrow> ('a, 'k) DependencyGraph \<Rightarrow>
   nat \<Rightarrow> 'a list \<Rightarrow> ('a, 'k) resolved" where
  "resolveLoop env ps s g i [] = ResolvedGraph g"
| "resolveLoop env ps s g i (a # rest) =
     (case (case map_of ps (API env a) of
              Some bp \<Rightarrow> Some bp
            | None \<Rightarrow> behaviourProviderOf env (API env a)) of
        Some bp \<Rightarrow>
          (case GetBehaviourForAtom env bp s i g a of
             (b, bp', s', g') \<Rightarrow>
               resolveLoop env (AList.update (API env a) bp' ps) s'
                 (g'\<lparr>Behaviours := (Behaviours g')[i := b]\<rparr>) (Suc i) rest)
      | None \<Rightarrow>
          (case Mutate env a s of
             (Some err, s') \<Rightarrow> ResolvedBehaviour (noBehaviour\<lparr>Aborted := True\<rparr>)
           | (None, s') \<Rightarrow>
               resolveLoop env ps s'
                 (g\<lparr>Behaviours := (Behaviours g)[i := (Behaviours g ! i)\<lparr>KeepAlive := True\<rparr>]\<rparr>)
                 (Suc i) rest))"

text \<open>\<^verbatim>\<open>Resolve\<close> on a capture with the atoms \<open>atoms\<close> and the new state \<open>s0\<close>.\<close>

definition Resolve ::
  "('a, 'api, 'p, 's, 'k) captureEnv \<Rightarrow> 'a list \<Rightarrow> 's \<Rightarrow> ('a, 'k) resolved" where
  "Resolve env atoms s0 =
     resolveLoop env [] s0
       \<lparr>Atoms = atoms, Behaviours = replicate (length atoms) noBehaviour, Roots = [],
        addressMap = newAddressMapping\<rparr> 0 atoms"

text \<open>\<^verbatim>\<open>GetDependencyGraph\<close>: the type assertion \<^verbatim>\<open>r.(*DependencyGraph)\<close> panics on any other
  value.\<close>

definition GetDependencyGraph ::
  "('a, 'api, 'p, 's, 'k) captureEnv \<Rightarrow> 'a list \<Rightarrow> 's \<Rightarrow> ('a, 'k) DependencyGraph option" where
  "GetDependencyGraph env atoms s0 =
     (case Resolve env atoms s0 of
        ResolvedGraph g \<Rightarrow> Some g
      | ResolvedBehaviour b \<Rightarrow> None)"

text \<open>A capture of an API without behaviour provider whose atom \<open>''bad''\<close> fails to mutate.\<close>

definition exEnv :: "(string, unit, unit, unit, string) captureEnv" where
  "exEnv = \<lparr>API = (\<lambda>a. ()), behaviourProviderOf = (\<lambda>api. None),
            GetBehaviourForAtom = (\<lambda>p s i g a. (noBehaviour, p, s, g)),
            Mutate = (\<lambda>a s. if a = ''bad'' then (Some (MutateError ''failed''), s) else (None, s))\<rparr>"

section \<open>The liveness tree: lemmas\<close>

lemma ancestors_mono:
  "ancestors ns f p = Some ch \<Longrightarrow> f \<le> f' \<Longrightarrow> ancestors ns f' p = Some ch"
proof (induction ns f p arbitrary: ch f' rule: ancestors.induct)
  case (1 ns fuel)
  then show ?case by simp
next
  case (2 ns i)
  then show ?case by simp
next
  case (3 ns fuel i)
  from "3.prems" obtain g where g: "f' = Suc g" "fuel \<le> g" by (cases f') auto
  from "3.prems"(1) have i: "i < length ns" by (simp split: if_splits)
  from "3.prems"(1) i obtain ch' where ch': "ancestors ns fuel (parent (ns ! i)) = Some ch'" "ch = i # ch'"
    by (auto split: option.splits)
  from "3.IH"[OF i ch'(1) g(2)] show ?case using g i ch' by simp
qed

lemma ancestors_shape:
  "map parent ns' = map parent ns \<Longrightarrow> ancestors ns' f p = ancestors ns f p"
proof (induction ns f p rule: ancestors.induct)
  case (3 ns fuel i)
  have len: "length ns' = length ns" using 3(2) by (metis length_map)
  show ?case
  proof (cases "i < length ns")
    case True
    then have "parent (ns' ! i) = parent (ns ! i)" using 3(2) len by (metis nth_map)
    then show ?thesis using 3 True len by simp
  next
    case False
    then show ?thesis using len by simp
  qed
qed simp_all

lemma wellFormed_shape:
  assumes "map parent ns' = map parent ns"
  shows "wellFormed ns' = wellFormed ns"
proof -
  have "length ns' = length ns" using assms by (metis length_map)
  then show ?thesis unfolding wellFormed_def by (simp add: ancestors_shape[OF assms])
qed

lemma anc_shape:
  assumes "map parent ns' = map parent ns" "a < length ns"
  shows "anc ns' a = anc ns a"
proof -
  have len: "length ns' = length ns" using assms(1) by (metis length_map)
  have "parent (ns' ! a) = parent (ns ! a)" using assms len by (metis nth_map)
  then show ?thesis unfolding anc_def using ancestors_shape[OF assms(1)] len by simp
qed

lemma wellFormedD:
  assumes "wellFormed ns" "a < length ns"
  obtains ch where "ancestors ns (length ns) (parent (ns ! a)) = Some ch"
proof -
  from assms have "ancestors ns (length ns) (Some a) \<noteq> None"
    by (simp add: wellFormed_def list_all_iff)
  then obtain c where c: "ancestors ns (length ns) (Some a) = Some c" by auto
  from assms(2) obtain m where m: "length ns = Suc m" by (cases "length ns") auto
  from c m assms(2) obtain ch where "ancestors ns m (parent (ns ! a)) = Some ch"
    by (auto split: option.splits)
  then have "ancestors ns (length ns) (parent (ns ! a)) = Some ch"
    by (rule ancestors_mono) (simp add: m)
  then show ?thesis by (rule that)
qed

lemma anc_root: "parent (ns ! a) = None \<Longrightarrow> anc ns a = []"
  by (simp add: anc_def)

lemma anc_step:
  assumes "wellFormed ns" "a < length ns" "parent (ns ! a) = Some p"
  shows "p < length ns \<and> anc ns a = p # anc ns p"
proof -
  obtain ch where "ancestors ns (length ns) (parent (ns ! a)) = Some ch"
    by (rule wellFormedD[OF assms(1,2)])
  then have ch: "ancestors ns (length ns) (Some p) = Some ch" using assms(3) by simp
  from assms(2) obtain m where m: "length ns = Suc m" by (cases "length ns") auto
  from ch m have p: "p < length ns" by (auto split: if_splits)
  from ch m p obtain ch' where ch': "ancestors ns m (parent (ns ! p)) = Some ch'" "ch = p # ch'"
    by (auto split: option.splits)
  have "ancestors ns (length ns) (parent (ns ! p)) = Some ch'"
    by (rule ancestors_mono[OF ch'(1)]) (simp add: m)
  then show ?thesis using ch ch' p assms(3) by (simp add: anc_def)
qed

lemma anc_induct [consumes 2, case_names root child]:
  assumes wf: "wellFormed ns" and a: "a < length ns"
    and root: "\<And>a. a < length ns \<Longrightarrow> parent (ns ! a) = None \<Longrightarrow> P a"
    and child: "\<And>a p. a < length ns \<Longrightarrow> parent (ns ! a) = Some p \<Longrightarrow> p < length ns \<Longrightarrow>
                  anc ns a = p # anc ns p \<Longrightarrow> P p \<Longrightarrow> P a"
  shows "P a"
  using a
proof (induction "length (anc ns a)" arbitrary: a rule: less_induct)
  case less
  show ?case
  proof (cases "parent (ns ! a)")
    case None
    then show ?thesis using root less.prems by simp
  next
    case (Some p)
    from anc_step[OF wf less.prems Some] have p: "p < length ns" "anc ns a = p # anc ns p" by auto
    then have "P p" using less.hyps[of p] by simp
    then show ?thesis using child[OF less.prems Some p] by simp
  qed
qed

lemma anc_in_range: "wellFormed ns \<Longrightarrow> a < length ns \<Longrightarrow> x \<in> set (anc ns a) \<Longrightarrow> x < length ns"
  by (induction a rule: anc_induct) (auto simp: anc_root)

lemma anc_split:
  "wellFormed ns \<Longrightarrow> a < length ns \<Longrightarrow> z \<in> set (anc ns a) \<Longrightarrow> \<exists>pre. anc ns a = pre @ z # anc ns z"
proof (induction a rule: anc_induct)
  case (root a)
  then show ?case by (simp add: anc_root)
next
  case (child a p)
  show ?case
  proof (cases "z = p")
    case True
    then show ?thesis using child by auto
  next
    case False
    then have "z \<in> set (anc ns p)" using child by simp
    then obtain pre where "anc ns p = pre @ z # anc ns z" using child by auto
    then have "anc ns a = (p # pre) @ z # anc ns z" using child by simp
    then show ?thesis by blast
  qed
qed

lemma anc_irrefl: 
  assumes "wellFormed ns" "a < length ns" shows "a \<notin> set (anc ns a)"
proof
  assume "a \<in> set (anc ns a)"
  from anc_split[OF assms this] obtain pre where "anc ns a = pre @ a # anc ns a" by auto
  then have "length (anc ns a) = length (pre @ a # anc ns a)" by simp
  then show False by simp
qed

lemma anc_trans:
  assumes "wellFormed ns" "a < length ns" "z \<in> set (anc ns a)" "y \<in> set (anc ns z)"
  shows "y \<in> set (anc ns a)"
proof -
  from anc_split[OF assms(1,2,3)] obtain pre where "anc ns a = pre @ z # anc ns z" by auto
  then show ?thesis using assms(4) by simp
qed

lemma isLiveLoop_eff:
  assumes "wellFormed ns" "a < length ns"
  shows "isLiveLoop ns (parent (ns ! a)) node lv =
           Some (if timestamp node < fst (eff ns (anc ns a)) then snd (eff ns (anc ns a)) else lv)"
  using assms
proof (induction a arbitrary: node lv rule: anc_induct)
  case (root a)
  then show ?case by (subst isLiveLoop.simps) (simp add: anc_root)
next
  case (child a p)
  show ?case
  proof (cases "timestamp node < timestamp (ns ! p)")
    case True
    have "isLiveLoop ns (parent (ns ! a)) node lv
            = isLiveLoop ns (parent (ns ! p)) (ns ! p) (live (ns ! p))"
      by (subst isLiveLoop.simps) (simp add: child True)
    also have "\<dots> = Some (if timestamp (ns ! p) < fst (eff ns (anc ns p))
                         then snd (eff ns (anc ns p)) else live (ns ! p))"
      by (rule child.IH)
    finally show ?thesis using True child(4) by auto
  next
    case False
    have "isLiveLoop ns (parent (ns ! a)) node lv = isLiveLoop ns (parent (ns ! p)) node lv"
      by (subst isLiveLoop.simps) (simp add: child False)
    also have "\<dots> = Some (if timestamp node < fst (eff ns (anc ns p))
                         then snd (eff ns (anc ns p)) else lv)"
      by (rule child.IH)
    finally show ?thesis using False child(4) by auto
  qed
qed

lemma IsLive_alive:
  "wellFormed (nodes l) \<Longrightarrow> a < length (nodes l) \<Longrightarrow> IsLive l a = Some (alive (nodes l) a)"
  by (simp add: IsLive_def isLiveLoop_eff alive_def)

lemma map_parent_update:
  "parent v = parent (ns ! z) \<Longrightarrow> map parent (ns[z := v]) = map parent ns"
  by (cases "z < length ns") (auto simp: list_eq_iff_nth_eq nth_list_update)

lemma remat_len: "rematerialised ns i ns' \<Longrightarrow> length ns' = length ns"
  and remat_shape: "rematerialised ns i ns' \<Longrightarrow> map parent ns' = map parent ns"
  and remat_other: "rematerialised ns i ns' \<Longrightarrow> x < length ns \<Longrightarrow> x \<noteq> i \<Longrightarrow> x \<notin> set (anc ns i) \<Longrightarrow> ns' ! x = ns ! x"
  and remat_any: "rematerialised ns i ns' \<Longrightarrow> x = i \<or> x \<in> set (anc ns i) \<Longrightarrow> anyLive (ns' ! x)"
  and remat_ts: "rematerialised ns i ns' \<Longrightarrow> x = i \<or> x \<in> set (anc ns i) \<Longrightarrow> timestamp (ns' ! x) = fst (eff ns (x # anc ns x))"
  and remat_live: "rematerialised ns i ns' \<Longrightarrow> x = i \<or> x \<in> set (anc ns i) \<Longrightarrow> live (ns' ! x) = snd (eff ns (x # anc ns x))"
  unfolding rematerialised_def by (auto simp del: eff.simps)

lemma setAnyLive_rematerialised:
  assumes "wellFormed ns" "i < length ns"
  shows "\<exists>ns'. setAnyLive ns i = Some ns' \<and> rematerialised ns i ns'"
  using assms
proof (induction i rule: anc_induct)
  case (root i)
  have "setAnyLive ns i = Some (ns[i := (ns ! i)\<lparr>anyLive := True\<rparr>])"
    by (subst setAnyLive.simps) (simp add: root)
  moreover have "rematerialised ns i (ns[i := (ns ! i)\<lparr>anyLive := True\<rparr>])"
    using root by (simp add: rematerialised_def anc_root map_parent_update)
  ultimately show ?case by blast
next
  case (child i p)
  from child.IH obtain ns1 where ns1: "setAnyLive ns p = Some ns1" "rematerialised ns p ns1"
    by blast
  have len: "length ns1 = length ns" and shape: "map parent ns1 = map parent ns"
    using ns1(2) by (simp_all add: remat_len remat_shape)
  have inot: "i \<notin> set (p # anc ns p)"
    using anc_irrefl[OF assms(1) child(1)] child(4) by simp
  have i1: "ns1 ! i = ns ! i" using remat_other[OF ns1(2) child(1)] inot by simp
  have p1: "timestamp (ns1 ! p) = fst (eff ns (p # anc ns p))"
           "live (ns1 ! p) = snd (eff ns (p # anc ns p))"
    using remat_ts[OF ns1(2), of p] remat_live[OF ns1(2), of p] by simp_all
  define v where "v = (if timestamp (ns ! i) < timestamp (ns1 ! p)
                       then (ns ! i)\<lparr>live := live (ns1 ! p), timestamp := timestamp (ns1 ! p), anyLive := True\<rparr>
                       else (ns ! i)\<lparr>anyLive := True\<rparr>)"
  have res: "setAnyLive ns i = Some (ns1[i := v])"
    by (subst setAnyLive.simps) (simp add: child ns1 len i1 v_def)
  have vpar: "parent v = parent (ns1 ! i)" by (simp add: v_def i1)
  have veff: "timestamp v = fst (eff ns (i # anc ns i))" "live v = snd (eff ns (i # anc ns i))"
    unfolding v_def p1 child(4) by (simp_all del: eff.simps add: eff.simps(2)[of ns i])
  have vany: "anyLive v" by (simp add: v_def)
  have A: "length (ns1[i := v]) = length ns" by (simp add: len)
  have B: "map parent (ns1[i := v]) = map parent ns"
    using map_parent_update[OF vpar] shape by simp
  have C: "\<forall>x < length ns. x \<notin> set (i # anc ns i) \<longrightarrow> ns1[i := v] ! x = ns ! x"
  proof (intro allI impI)
    fix x assume "x < length ns" "x \<notin> set (i # anc ns i)"
    then show "ns1[i := v] ! x = ns ! x"
      using remat_other[OF ns1(2), of x] child(4) by simp
  qed
  have D: "\<forall>x \<in> set (i # anc ns i). anyLive (ns1[i := v] ! x) \<and>
             timestamp (ns1[i := v] ! x) = fst (eff ns (x # anc ns x)) \<and>
             live (ns1[i := v] ! x) = snd (eff ns (x # anc ns x))"
  proof
    fix x assume x: "x \<in> set (i # anc ns i)"
    show "anyLive (ns1[i := v] ! x) \<and>
             timestamp (ns1[i := v] ! x) = fst (eff ns (x # anc ns x)) \<and>
             live (ns1[i := v] ! x) = snd (eff ns (x # anc ns x))"
    proof (cases "x = i")
      case True then show ?thesis using veff vany child(1) len by (simp del: eff.simps)
    next
      case False
      then have "x = p \<or> x \<in> set (anc ns p)" using x child(4) by simp
      then show ?thesis
        using remat_ts[OF ns1(2), of x] remat_live[OF ns1(2), of x] remat_any[OF ns1(2), of x] False
        by (simp del: eff.simps)
    qed
  qed
  have "rematerialised ns i (ns1[i := v])"
    unfolding rematerialised_def using A B C D by blast
  then show ?case using res by blast
qed

lemma rematerialised_eff:
  assumes wf: "wellFormed ns" and r: "rematerialised ns i ns'" and b: "b < length ns"
  shows "eff ns' (b # anc ns b) = eff ns (b # anc ns b)"
  using wf b
proof (induction b rule: anc_induct)
  case (root b)
  show ?case
  proof (cases "b \<in> set (i # anc ns i)")
    case True
    then have "timestamp (ns' ! b) = fst (eff ns (b # anc ns b))"
              "live (ns' ! b) = snd (eff ns (b # anc ns b))"
      using remat_ts[OF r, of b] remat_live[OF r, of b] by simp_all
    then show ?thesis using root by (simp add: anc_root)
  next
    case False
    then have "ns' ! b = ns ! b" using remat_other[OF r, of b] root by simp
    then show ?thesis using root by (simp add: anc_root)
  qed
next
  case (child b p)
  have ih: "eff ns' (anc ns b) = eff ns (anc ns b)" using child by simp
  show ?case
  proof (cases "b \<in> set (i # anc ns i)")
    case True
    then have e: "timestamp (ns' ! b) = fst (eff ns (b # anc ns b))"
                 "live (ns' ! b) = snd (eff ns (b # anc ns b))"
      using remat_ts[OF r, of b] remat_live[OF r, of b] by simp_all
    have n: "\<not> timestamp (ns' ! b) < fst (eff ns (anc ns b))"
      unfolding e by simp
    have "eff ns' (b # anc ns b) = (timestamp (ns' ! b), live (ns' ! b))"
      using n ih by simp
    also have "\<dots> = eff ns (b # anc ns b)" unfolding e by (simp del: eff.simps)
    finally show ?thesis .
  next
    case False
    then have "ns' ! b = ns ! b" using remat_other[OF r, of b] child by simp
    then show ?thesis using ih by simp
  qed
qed

lemma rematerialised_eff_anc:
  assumes wf: "wellFormed ns" and r: "rematerialised ns i ns'" and b: "b < length ns"
  shows "eff ns' (anc ns b) = eff ns (anc ns b)"
proof (cases "parent (ns ! b)")
  case None
  then show ?thesis by (simp add: anc_root)
next
  case (Some p)
  from anc_step[OF wf b Some] have "p < length ns" "anc ns b = p # anc ns p" by auto
  then show ?thesis using rematerialised_eff[OF wf r, of p] by simp
qed

lemma treeInv_wf: "treeInv l \<Longrightarrow> wellFormed (nodes l)"
  and treeInv_time: "treeInv l \<Longrightarrow> 0 < time l"
  and treeInv_ts: "treeInv l \<Longrightarrow> x < length (nodes l) \<Longrightarrow> timestamp (nodes l ! x) < time l"
  by (simp_all add: treeInv_def list_all_length)

lemma eff_bound:
  "\<forall>x \<in> set ch. x < length ns \<Longrightarrow> \<forall>x < length ns. timestamp (ns ! x) < t \<Longrightarrow> 0 < t \<Longrightarrow>
   fst (eff ns ch) < t"
  by (induction ch) auto

lemma eff_update_other: "z \<notin> set ch \<Longrightarrow> eff (ns[z := v]) ch = eff ns ch"
  by (induction ch) auto

lemma eff_update_hit:
  assumes "z < length ns" "\<forall>x \<in> set pre. x < length ns" "\<forall>x < length ns. timestamp (ns ! x) < timestamp v"
    and "fst (eff (ns[z := v]) rest) < timestamp v"
  shows "eff (ns[z := v]) (pre @ z # rest) = (timestamp v, live v)"
  using assms(2)
proof (induction pre)
  case Nil
  then show ?case using assms(1,4) by simp
next
  case (Cons x pre)
  then have ih: "eff (ns[z := v]) (pre @ z # rest) = (timestamp v, live v)" by simp
  have x: "x < length ns" using Cons.prems by simp
  show ?case
  proof (cases "x = z")
    case True
    then have "timestamp (ns[z := v] ! x) = timestamp v" "live (ns[z := v] ! x) = live v"
      using assms(1) by simp_all
    then show ?thesis using ih by simp
  next
    case False
    then have "timestamp (ns[z := v] ! x) < timestamp v" using assms(3) x by simp
    then show ?thesis using ih by simp
  qed
qed

lemma mark_alive:
  assumes wf: "wellFormed ns" and z: "z < length ns" and a: "a < length ns"
    and ts: "\<forall>x < length ns. timestamp (ns ! x) < timestamp v" and t0: "0 < timestamp v"
    and vp: "parent v = parent (ns ! z)"
  shows "alive (ns[z := v]) a =
           (if a = z then anyLive v else if z \<in> set (anc ns a) then live v else alive ns a)"
proof -
  let ?ns1 = "ns[z := v]"
  have shape: "map parent ?ns1 = map parent ns" by (rule map_parent_update[OF vp])
  have anc1: "anc ?ns1 a = anc ns a" using anc_shape[OF shape a] .
  have rng: "\<And>b. b < length ns \<Longrightarrow> \<forall>x \<in> set (anc ns b). x < length ns"
    using anc_in_range[OF wf] by blast
  have alive1: "alive ?ns1 a =
     (if timestamp (?ns1 ! a) < fst (eff ?ns1 (anc ns a)) then snd (eff ?ns1 (anc ns a))
      else anyLive (?ns1 ! a))"
    by (simp add: alive_def anc1)
  show ?thesis
  proof (cases "z \<in> set (anc ns a)")
    case True
    then obtain pre where pre: "anc ns a = pre @ z # anc ns z" using anc_split[OF wf a] by blast
    have nz: "z \<notin> set (anc ns z)" by (rule anc_irrefl[OF wf z])
    have "fst (eff ?ns1 (anc ns z)) = fst (eff ns (anc ns z))"
      using eff_update_other[OF nz] by simp
    also have "\<dots> < timestamp v" by (rule eff_bound[OF rng[OF z] ts t0])
    finally have r: "fst (eff ?ns1 (anc ns z)) < timestamp v" .
    have p: "\<forall>x \<in> set pre. x < length ns" using rng[OF a] pre by simp
    have e: "eff ?ns1 (anc ns a) = (timestamp v, live v)"
      unfolding pre by (rule eff_update_hit[OF z p ts r])
    have az: "a \<noteq> z" using True anc_irrefl[OF wf a] by auto
    then have "timestamp (?ns1 ! a) < timestamp v" using ts a by simp
    then show ?thesis unfolding alive1 using e az True by simp
  next
    case False
    have e: "eff ?ns1 (anc ns a) = eff ns (anc ns a)" by (rule eff_update_other[OF False])
    show ?thesis
    proof (cases "a = z")
      case True
      have "fst (eff ns (anc ns a)) < timestamp v" by (rule eff_bound[OF rng[OF a] ts t0])
      then show ?thesis unfolding alive1 using True z e by simp
    next
      case False2: False
      then show ?thesis unfolding alive1 using False e by (simp add: alive_def)
    qed
  qed
qed

lemma MarkDead_alive:
  assumes inv: "treeInv l" and z: "z < length (nodes l)"
  shows "\<exists>l'. MarkDead l z = Some l' \<and> treeInv l' \<and> map parent (nodes l') = map parent (nodes l) \<and>
           (\<forall>a < length (nodes l). alive (nodes l') a =
               (if a = z \<or> z \<in> set (anc (nodes l) a) then False else alive (nodes l) a))"
proof -
  let ?ns = "nodes l"
  define v where "v = (?ns ! z)\<lparr>live := False, anyLive := False, timestamp := time l\<rparr>"
  define l' where "l' = \<lparr>nodes = ?ns[z := v], time = time l + 1\<rparr>"
  have md: "MarkDead l z = Some l'" using z by (simp add: MarkDead_def l'_def v_def)
  have wf: "wellFormed ?ns" by (rule treeInv_wf[OF inv])
  have vp: "parent v = parent (?ns ! z)" by (simp add: v_def)
  have shape: "map parent (nodes l') = map parent ?ns"
    using map_parent_update[OF vp] by (simp add: l'_def)
  have ts: "\<forall>x < length ?ns. timestamp (?ns ! x) < timestamp v"
    using treeInv_ts[OF inv] by (simp add: v_def)
  have t0: "0 < timestamp v" using treeInv_time[OF inv] by (simp add: v_def)
  have inv': "treeInv l'"
    unfolding treeInv_def
  proof (intro conjI)
    show "wellFormed (nodes l')" using wellFormed_shape[OF shape] wf by simp
    show "0 < time l'" by (simp add: l'_def)
    show "list_all (\<lambda>v. timestamp v < time l') (nodes l')"
      unfolding list_all_length
    proof (intro allI impI)
      fix x assume "x < length (nodes l')"
      then have x: "x < length ?ns" by (simp add: l'_def)
      show "timestamp (nodes l' ! x) < time l'"
        using treeInv_ts[OF inv x] x z by (cases "x = z") (simp_all add: l'_def v_def)
    qed
  qed
  have al: "\<forall>a < length ?ns. alive (nodes l') a =
               (if a = z \<or> z \<in> set (anc ?ns a) then False else alive ?ns a)"
  proof (intro allI impI)
    fix a assume a: "a < length ?ns"
    have "alive (?ns[z := v]) a =
           (if a = z then anyLive v else if z \<in> set (anc ?ns a) then live v else alive ?ns a)"
      by (rule mark_alive[OF wf z a ts t0 vp])
    then show "alive (nodes l') a =
               (if a = z \<or> z \<in> set (anc ?ns a) then False else alive ?ns a)"
      by (simp add: l'_def v_def)
  qed
  show ?thesis using md inv' shape al by blast
qed

lemma MarkLive_alive:
  assumes inv: "treeInv l" and z: "z < length (nodes l)"
  shows "\<exists>l'. MarkLive l z = Some l' \<and> treeInv l' \<and> map parent (nodes l') = map parent (nodes l) \<and>
           (\<forall>a < length (nodes l). alive (nodes l') a =
               (if a = z \<or> z \<in> set (anc (nodes l) a) \<or> a \<in> set (anc (nodes l) z) then True
                else alive (nodes l) a))"
proof -
  let ?ns = "nodes l"
  define v where "v = (?ns ! z)\<lparr>live := True, anyLive := True, timestamp := time l\<rparr>"
  define ns1 where "ns1 = ?ns[z := v]"
  have wf: "wellFormed ?ns" by (rule treeInv_wf[OF inv])
  have vp: "parent v = parent (?ns ! z)" by (simp add: v_def)
  have shape1: "map parent ns1 = map parent ?ns"
    unfolding ns1_def by (rule map_parent_update[OF vp])
  have len1: "length ns1 = length ?ns" by (simp add: ns1_def)
  have wf1: "wellFormed ns1" using wellFormed_shape[OF shape1] wf by simp
  have ts: "\<forall>x < length ?ns. timestamp (?ns ! x) < timestamp v"
    using treeInv_ts[OF inv] by (simp add: v_def)
  have t0: "0 < timestamp v" using treeInv_time[OF inv] by (simp add: v_def)
  have ts1: "\<forall>x < length ns1. timestamp (ns1 ! x) < time l + 1"
  proof (intro allI impI)
    fix x assume "x < length ns1"
    then have x: "x < length ?ns" by (simp add: len1)
    show "timestamp (ns1 ! x) < time l + 1"
      using treeInv_ts[OF inv x] x z by (cases "x = z") (simp_all add: ns1_def v_def)
  qed
  have al1: "\<And>a. a < length ?ns \<Longrightarrow> alive ns1 a =
               (if a = z \<or> z \<in> set (anc ?ns a) then True else alive ?ns a)"
  proof -
    fix a assume a: "a < length ?ns"
    have "alive (?ns[z := v]) a =
           (if a = z then anyLive v else if z \<in> set (anc ?ns a) then live v else alive ?ns a)"
      by (rule mark_alive[OF wf z a ts t0 vp])
    then show "alive ns1 a = (if a = z \<or> z \<in> set (anc ?ns a) then True else alive ?ns a)"
      by (simp add: ns1_def v_def)
  qed
  have pz: "parent (ns1 ! z) = parent (?ns ! z)" using z by (simp add: ns1_def v_def)
  show ?thesis
  proof (cases "parent (?ns ! z)")
    case None
    define l' where "l' = \<lparr>nodes = ns1, time = time l + 1\<rparr>"
    have ml: "MarkLive l z = Some l'"
      using z None pz by (simp add: MarkLive_def l'_def ns1_def v_def Let_def)
    have inv': "treeInv l'"
      unfolding treeInv_def using wf1 ts1 by (simp add: l'_def list_all_length)
    have "anc ?ns z = []" using None by (rule anc_root)
    then have al: "\<forall>a < length ?ns. alive (nodes l') a =
               (if a = z \<or> z \<in> set (anc ?ns a) \<or> a \<in> set (anc ?ns z) then True else alive ?ns a)"
      using al1 by (simp add: l'_def)
    show ?thesis using ml inv' shape1 al by (auto simp: l'_def)
  next
    case (Some p)
    from anc_step[OF wf z Some] have p: "p < length ?ns" and ancz: "anc ?ns z = p # anc ?ns p" by auto
    have p1: "p < length ns1" using p len1 by simp
    from setAnyLive_rematerialised[OF wf1 p1] obtain ns2 where
      ns2: "setAnyLive ns1 p = Some ns2" "rematerialised ns1 p ns2" by blast
    define l' where "l' = \<lparr>nodes = ns2, time = time l + 1\<rparr>"
    have ml: "MarkLive l z = Some l'"
      using z Some pz ns2(1) by (simp add: MarkLive_def l'_def ns1_def v_def Let_def)
    have len2: "length ns2 = length ?ns" using remat_len[OF ns2(2)] len1 by simp
    have shape2: "map parent ns2 = map parent ?ns" using remat_shape[OF ns2(2)] shape1 by simp
    have wf2: "wellFormed ns2" using wellFormed_shape[OF shape2] wf by simp
    have anc1: "\<And>b. b < length ?ns \<Longrightarrow> anc ns1 b = anc ?ns b"
      using anc_shape[OF shape1] by simp
    have anc2: "\<And>b. b < length ?ns \<Longrightarrow> anc ns2 b = anc ?ns b"
      using anc_shape[OF shape2] by simp
    have rng1: "\<And>b. b < length ?ns \<Longrightarrow> \<forall>x \<in> set (b # anc ns1 b). x < length ns1"
      using anc_in_range[OF wf1] len1 by auto
    have chain: "\<And>x. x < length ?ns \<Longrightarrow> x = p \<or> x \<in> set (anc ?ns p) \<Longrightarrow>
                   anyLive (ns2 ! x) \<and> timestamp (ns2 ! x) = fst (eff ns1 (x # anc ?ns x))"
      using remat_any[OF ns2(2)] remat_ts[OF ns2(2)] anc1 p by (simp del: eff.simps)
    have other: "\<And>x. x < length ?ns \<Longrightarrow> x \<noteq> p \<Longrightarrow> x \<notin> set (anc ?ns p) \<Longrightarrow> ns2 ! x = ns1 ! x"
      using remat_other[OF ns2(2)] anc1 p len1 by simp
    have ts2: "\<forall>x < length ns2. timestamp (ns2 ! x) < time l + 1"
    proof (intro allI impI)
      fix x assume "x < length ns2"
      then have x: "x < length ?ns" by (simp add: len2)
      show "timestamp (ns2 ! x) < time l + 1"
      proof (cases "x = p \<or> x \<in> set (anc ?ns p)")
        case True
        have "fst (eff ns1 (x # anc ns1 x)) < time l + 1"
          by (rule eff_bound[OF rng1[OF x] ts1]) simp
        then show ?thesis using chain[OF x True] anc1[OF x] by (simp del: eff.simps)
      next
        case False
        then show ?thesis using other[OF x] ts1 x len1 by simp
      qed
    qed
    have inv': "treeInv l'"
      unfolding treeInv_def using wf2 ts2 by (simp add: l'_def list_all_length)
    have al: "\<forall>a < length ?ns. alive (nodes l') a =
               (if a = z \<or> z \<in> set (anc ?ns a) \<or> a \<in> set (anc ?ns z) then True else alive ?ns a)"
    proof (intro allI impI)
      fix a assume a: "a < length ?ns"
      have a1: "a < length ns1" using a len1 by simp
      have e: "eff ns2 (anc ?ns a) = eff ns1 (anc ?ns a)"
        using rematerialised_eff_anc[OF wf1 ns2(2) a1] anc1[OF a] by simp
      show "alive (nodes l') a =
               (if a = z \<or> z \<in> set (anc ?ns a) \<or> a \<in> set (anc ?ns z) then True else alive ?ns a)"
      proof (cases "a = p \<or> a \<in> set (anc ?ns p)")
        case True
        have "timestamp (ns2 ! a) = fst (eff ns1 (a # anc ?ns a))" "anyLive (ns2 ! a)"
          using chain[OF a True] by simp_all
        then have "\<not> timestamp (ns2 ! a) < fst (eff ns2 (anc ?ns a))" "anyLive (ns2 ! a)"
          using e by simp_all
        then have "alive ns2 a" by (simp add: alive_def anc2[OF a])
        then show ?thesis using True ancz by (simp add: l'_def)
      next
        case False
        then have "ns2 ! a = ns1 ! a" using other[OF a] by simp
        then have "alive ns2 a = alive ns1 a"
          using e by (simp add: alive_def anc1[OF a] anc2[OF a])
        then show ?thesis using al1[OF a] False ancz by (simp add: l'_def)
      qed
    qed
    show ?thesis using ml inv' shape2 al by (auto simp: l'_def)
  qed
qed

subsection \<open>The fresh tree and sequences of marks\<close>

lemma linkParents_fields:
  "linkParents ps ns = Some ns' \<Longrightarrow>
     length ns' = length ns \<and>
     (\<forall>x < length ns. live (ns' ! x) = live (ns ! x) \<and> anyLive (ns' ! x) = anyLive (ns ! x) \<and>
        timestamp (ns' ! x) = timestamp (ns ! x))"
proof (induction ps ns arbitrary: ns' rule: linkParents.induct)
  case (1 ns)
  then show ?case by simp
next
  case (2 a p rest ns)
  show ?case
  proof (cases "p \<noteq> NullStateAddress")
    case True
    with "2.prems" have ok: "a < length ns \<and> p < length ns" by (simp split: if_splits)
    let ?ns1 = "ns[a := (ns ! a)\<lparr>parent := Some p\<rparr>]"
    from "2.prems" True ok have "linkParents rest ?ns1 = Some ns'" by simp
    from "2.IH"(1)[OF True ok this]
    have ih: "length ns' = length ?ns1"
      "\<forall>x < length ?ns1. live (ns' ! x) = live (?ns1 ! x) \<and> anyLive (ns' ! x) = anyLive (?ns1 ! x) \<and>
        timestamp (ns' ! x) = timestamp (?ns1 ! x)" by simp_all
    have "\<And>x. x < length ns \<Longrightarrow> live (?ns1 ! x) = live (ns ! x) \<and>
            anyLive (?ns1 ! x) = anyLive (ns ! x) \<and> timestamp (?ns1 ! x) = timestamp (ns ! x)"
    proof -
      fix x assume "x < length ns"
      then show "live (?ns1 ! x) = live (ns ! x) \<and>
            anyLive (?ns1 ! x) = anyLive (ns ! x) \<and> timestamp (?ns1 ! x) = timestamp (ns ! x)"
        by (cases "x = a") simp_all
    qed
    then show ?thesis using ih by simp
  next
    case False
    with "2.prems" have "linkParents rest ns = Some ns'" by simp
    from "2.IH"(2)[OF False this] show ?thesis .
  qed
qed

lemma newLivenessTree_fresh:
  assumes "newLivenessTree parents = Some l"
  shows "time l = 1" and "length (nodes l) = length parents"
    and "\<And>x. x < length (nodes l) \<Longrightarrow>
           \<not> live (nodes l ! x) \<and> \<not> anyLive (nodes l ! x) \<and> timestamp (nodes l ! x) = 0"
proof -
  from assms obtain ns where ns: "linkParents parents (replicate (length parents) zeroNode) = Some ns"
    and l: "l = \<lparr>nodes = ns, time = 1\<rparr>"
    by (auto simp: newLivenessTree_def split: option.splits)
  show "time l = 1" by (simp add: l)
  from linkParents_fields[OF ns] show "length (nodes l) = length parents" by (simp add: l)
  fix x assume "x < length (nodes l)"
  then show "\<not> live (nodes l ! x) \<and> \<not> anyLive (nodes l ! x) \<and> timestamp (nodes l ! x) = 0"
    using linkParents_fields[OF ns] by (simp add: l zeroNode_def)
qed

lemma newLivenessTree_inv:
  assumes "newLivenessTree parents = Some l" "wellFormed (nodes l)"
  shows "treeInv l"
  unfolding treeInv_def list_all_length
  using assms(2) newLivenessTree_fresh[OF assms(1)] by simp

lemma eff_fresh:
  "\<forall>x \<in> set ch. timestamp (ns ! x) = 0 \<and> \<not> live (ns ! x) \<Longrightarrow> eff ns ch = (0, False)"
  by (induction ch) auto

lemma newLivenessTree_dead:
  assumes "newLivenessTree parents = Some l" "wellFormed (nodes l)" "a < length (nodes l)"
  shows "\<not> alive (nodes l) a"
proof -
  have "\<forall>x \<in> set (anc (nodes l) a). timestamp (nodes l ! x) = 0 \<and> \<not> live (nodes l ! x)"
    using anc_in_range[OF assms(2,3)] newLivenessTree_fresh(3)[OF assms(1)] by blast
  then have "eff (nodes l) (anc (nodes l) a) = (0, False)" by (rule eff_fresh)
  then show ?thesis using newLivenessTree_fresh(3)[OF assms(1,3)] by (simp add: alive_def)
qed

lemma marked_shape:
  assumes "map parent ns' = map parent ns" "a < length ns" "list_all (\<lambda>m. markAddress m < length ns) ms"
  shows "marked ns' a b ms = marked ns a b ms"
  using assms(3)
proof (induction ms arbitrary: b)
  case Nil
  then show ?case by simp
next
  case (Cons m ms)
  then have z: "markAddress m < length ns" and rest: "list_all (\<lambda>m. markAddress m < length ns) ms"
    by simp_all
  have a: "anc ns' a = anc ns a" by (rule anc_shape[OF assms(1,2)])
  have zz: "anc ns' (markAddress m) = anc ns (markAddress m)" by (rule anc_shape[OF assms(1) z])
  show ?case using Cons.IH[OF rest] a zz by (cases m) (simp_all add: inSubtree_def)
qed

lemma applyMark_marked:
  assumes inv: "treeInv l" and z: "markAddress m < length (nodes l)"
  shows "\<exists>l1. applyMark l m = Some l1 \<and> treeInv l1 \<and> map parent (nodes l1) = map parent (nodes l) \<and>
          (\<forall>a < length (nodes l). alive (nodes l1) a = marked (nodes l) a (alive (nodes l) a) [m])"
proof (cases m)
  case (Live x)
  then have x: "x < length (nodes l)" using z by simp
  from MarkLive_alive[OF inv x] obtain l1 where l1: "MarkLive l x = Some l1" "treeInv l1"
    "map parent (nodes l1) = map parent (nodes l)"
    "\<forall>a < length (nodes l). alive (nodes l1) a =
        (if a = x \<or> x \<in> set (anc (nodes l) a) \<or> a \<in> set (anc (nodes l) x) then True
         else alive (nodes l) a)"
    by blast
  have "\<forall>a < length (nodes l). alive (nodes l1) a = marked (nodes l) a (alive (nodes l) a) [m]"
  proof (intro allI impI)
    fix a assume "a < length (nodes l)"
    with l1(4) have "alive (nodes l1) a =
        (if a = x \<or> x \<in> set (anc (nodes l) a) \<or> a \<in> set (anc (nodes l) x) then True
         else alive (nodes l) a)" by blast
    also have "\<dots> = marked (nodes l) a (alive (nodes l) a) [m]"
      unfolding Live by (auto simp: inSubtree_def)
    finally show "alive (nodes l1) a = marked (nodes l) a (alive (nodes l) a) [m]" .
  qed
  moreover have "applyMark l m = Some l1" using l1(1) Live by simp
  ultimately show ?thesis using l1(2,3) by blast
next
  case (Dead x)
  then have x: "x < length (nodes l)" using z by simp
  from MarkDead_alive[OF inv x] obtain l1 where l1: "MarkDead l x = Some l1" "treeInv l1"
    "map parent (nodes l1) = map parent (nodes l)"
    "\<forall>a < length (nodes l). alive (nodes l1) a =
        (if a = x \<or> x \<in> set (anc (nodes l) a) then False else alive (nodes l) a)"
    by blast
  have "\<forall>a < length (nodes l). alive (nodes l1) a = marked (nodes l) a (alive (nodes l) a) [m]"
  proof (intro allI impI)
    fix a assume "a < length (nodes l)"
    with l1(4) have "alive (nodes l1) a =
        (if a = x \<or> x \<in> set (anc (nodes l) a) then False else alive (nodes l) a)" by blast
    also have "\<dots> = marked (nodes l) a (alive (nodes l) a) [m]"
      unfolding Dead by auto
    finally show "alive (nodes l1) a = marked (nodes l) a (alive (nodes l) a) [m]" .
  qed
  moreover have "applyMark l m = Some l1" using l1(1) Dead by simp
  ultimately show ?thesis using l1(2,3) by blast
qed

lemma marked_Cons: "marked ns a b (m # ms) = marked ns a (marked ns a b [m]) ms"
  by (cases m) simp_all

lemma applyMarks_marked:
  assumes "treeInv l" "list_all (\<lambda>m. markAddress m < length (nodes l)) ms"
  shows "\<exists>l'. applyMarks ms l = Some l' \<and> treeInv l' \<and> map parent (nodes l') = map parent (nodes l) \<and>
           (\<forall>a < length (nodes l). alive (nodes l') a = marked (nodes l) a (alive (nodes l) a) ms)"
  using assms
proof (induction ms arbitrary: l)
  case Nil
  then show ?case by simp
next
  case (Cons m ms)
  then have z: "markAddress m < length (nodes l)"
    and rest: "list_all (\<lambda>m. markAddress m < length (nodes l)) ms" by simp_all
  from applyMark_marked[OF Cons.prems(1) z]
  obtain l1 where l1: "applyMark l m = Some l1" "treeInv l1"
    "map parent (nodes l1) = map parent (nodes l)"
    "\<forall>a < length (nodes l). alive (nodes l1) a = marked (nodes l) a (alive (nodes l) a) [m]"
    by blast
  have len: "length (nodes l1) = length (nodes l)" using l1(3) by (rule map_eq_imp_length_eq)
  have rest1: "list_all (\<lambda>m. markAddress m < length (nodes l1)) ms" using rest len by simp
  from Cons.IH[OF l1(2) rest1] obtain l' where l': "applyMarks ms l1 = Some l'" "treeInv l'"
    "map parent (nodes l') = map parent (nodes l1)"
    "\<forall>a < length (nodes l1). alive (nodes l') a = marked (nodes l1) a (alive (nodes l1) a) ms"
    by blast
  have "\<forall>a < length (nodes l). alive (nodes l') a = marked (nodes l) a (alive (nodes l) a) (m # ms)"
  proof (intro allI impI)
    fix a assume a: "a < length (nodes l)"
    have "alive (nodes l') a = marked (nodes l1) a (alive (nodes l1) a) ms" using l'(4) a len by simp
    also have "\<dots> = marked (nodes l) a (alive (nodes l1) a) ms"
      by (rule marked_shape[OF l1(3) a rest])
    also have "alive (nodes l1) a = marked (nodes l) a (alive (nodes l) a) [m]"
      using l1(4) a by blast
    finally show "alive (nodes l') a = marked (nodes l) a (alive (nodes l) a) (m # ms)"
      by (simp add: marked_Cons[symmetric])
  qed
  moreover have "applyMarks (m # ms) l = Some l'" using l1(1) l'(1) by simp
  moreover have "map parent (nodes l') = map parent (nodes l)" using l'(3) l1(3) by simp
  ultimately show ?case using l'(2) by blast
qed

subsection \<open>The example tree\<close>

lemma exTree_built: "newLivenessTree exParents = Some exTree"
  by code_simp

lemma exTree_wellFormed: "wellFormed (nodes exTree)"
  by code_simp

section \<open>The sweep: lemmas\<close>

lemma rel_anc:
  assumes "rel ns l X" "a < length ns"
  shows "anc (nodes l) a = anc ns a"
  using assms anc_shape[of "nodes l" ns a] by (simp add: rel_def)

lemma rel_len: "rel ns l X \<Longrightarrow> length (nodes l) = length ns"
  unfolding rel_def using map_eq_imp_length_eq by blast

lemma rel_IsLive:
  assumes "rel ns l X" "a < length ns"
  shows "IsLive l a = Some (X a)"
proof -
  have "IsLive l a = Some (alive (nodes l) a)"
    using assms rel_len[OF assms(1)] by (simp add: IsLive_alive rel_def treeInv_wf)
  then show ?thesis using assms by (simp add: rel_def)
qed

lemma rel_MarkLive:
  assumes r: "rel ns l X" and z: "z < length ns"
  shows "\<exists>l'. MarkLive l z = Some l' \<and> rel ns l' (aLive ns X z)"
proof -
  have len: "length (nodes l) = length ns" by (rule rel_len[OF r])
  have inv: "treeInv l" using r by (simp add: rel_def)
  have z': "z < length (nodes l)" using z len by simp
  from MarkLive_alive[OF inv z'] obtain l' where l': "MarkLive l z = Some l'" "treeInv l'"
    "map parent (nodes l') = map parent (nodes l)"
    "\<forall>a < length (nodes l). alive (nodes l') a =
        (if a = z \<or> z \<in> set (anc (nodes l) a) \<or> a \<in> set (anc (nodes l) z) then True
         else alive (nodes l) a)"
    by blast
  have "\<forall>a < length ns. alive (nodes l') a = aLive ns X z a"
  proof (intro allI impI)
    fix a assume a: "a < length ns"
    have "alive (nodes l') a =
        (if a = z \<or> z \<in> set (anc (nodes l) a) \<or> a \<in> set (anc (nodes l) z) then True
         else alive (nodes l) a)" using l'(4) a len by simp
    moreover have "alive (nodes l) a = X a" using r a by (simp add: rel_def)
    ultimately show "alive (nodes l') a = aLive ns X z a"
      using rel_anc[OF r a] rel_anc[OF r z] by (auto simp: aLive_def)
  qed
  moreover have "map parent (nodes l') = map parent ns" using l'(3) r by (simp add: rel_def)
  ultimately have "rel ns l' (aLive ns X z)" using l'(2) by (simp add: rel_def)
  then show ?thesis using l'(1) by blast
qed

lemma rel_MarkDead:
  assumes r: "rel ns l X" and z: "z < length ns"
  shows "\<exists>l'. MarkDead l z = Some l' \<and> rel ns l' (aDead ns X z)"
proof -
  have len: "length (nodes l) = length ns" by (rule rel_len[OF r])
  have inv: "treeInv l" using r by (simp add: rel_def)
  have z': "z < length (nodes l)" using z len by simp
  from MarkDead_alive[OF inv z'] obtain l' where l': "MarkDead l z = Some l'" "treeInv l'"
    "map parent (nodes l') = map parent (nodes l)"
    "\<forall>a < length (nodes l). alive (nodes l') a =
        (if a = z \<or> z \<in> set (anc (nodes l) a) then False else alive (nodes l) a)"
    by blast
  have "\<forall>a < length ns. alive (nodes l') a = aDead ns X z a"
  proof (intro allI impI)
    fix a assume a: "a < length ns"
    have "alive (nodes l') a =
        (if a = z \<or> z \<in> set (anc (nodes l) a) then False else alive (nodes l) a)"
      using l'(4) a len by simp
    moreover have "alive (nodes l) a = X a" using r a by (simp add: rel_def)
    ultimately show "alive (nodes l') a = aDead ns X z a"
      using rel_anc[OF r a] by (auto simp: aDead_def)
  qed
  moreover have "map parent (nodes l') = map parent ns" using l'(3) r by (simp add: rel_def)
  ultimately have "rel ns l' (aDead ns X z)" using l'(2) by (simp add: rel_def)
  then show ?thesis using l'(1) by blast
qed

lemma rel_markLiveAll:
  assumes "rel ns l X" "list_all (\<lambda>a. a < length ns) zs"
  shows "\<exists>l'. markLiveAll zs l = Some l' \<and> rel ns l' (aLiveAll ns zs X)"
  using assms
proof (induction zs arbitrary: l X)
  case Nil
  then show ?case by simp
next
  case (Cons z zs)
  then have z: "z < length ns" and rest: "list_all (\<lambda>a. a < length ns) zs" by simp_all
  from rel_MarkLive[OF Cons.prems(1) z] obtain l1 where
    l1: "MarkLive l z = Some l1" "rel ns l1 (aLive ns X z)" by blast
  from Cons.IH[OF l1(2) rest] obtain l' where
    "markLiveAll zs l1 = Some l'" "rel ns l' (aLiveAll ns zs (aLive ns X z))" by blast
  then show ?case using l1(1) by simp
qed

lemma rel_sweepWrites:
  assumes "rel ns l X" "list_all (\<lambda>a. a < length ns) ws"
  shows "\<exists>l'. sweepWrites ws l lv = Some (l', snd (aWrites ns ws X lv)) \<and>
               rel ns l' (fst (aWrites ns ws X lv))"
  using assms
proof (induction ws arbitrary: l X lv)
  case Nil
  then show ?case by simp
next
  case (Cons w ws)
  then have w: "w < length ns" and rest: "list_all (\<lambda>a. a < length ns) ws" by simp_all
  have il: "IsLive l w = Some (X w)" by (rule rel_IsLive[OF Cons.prems(1) w])
  show ?case
  proof (cases "X w")
    case True
    from rel_MarkDead[OF Cons.prems(1) w] obtain l1 where
      l1: "MarkDead l w = Some l1" "rel ns l1 (aDead ns X w)" by blast
    from Cons.IH[OF l1(2) rest, of True] obtain l' where
      "sweepWrites ws l1 True = Some (l', snd (aWrites ns ws (aDead ns X w) True))"
      "rel ns l' (fst (aWrites ns ws (aDead ns X w) True))" by blast
    then show ?thesis using il True l1(1) by simp
  next
    case False
    from Cons.IH[OF Cons.prems(1) rest, of lv] obtain l' where
      "sweepWrites ws l lv = Some (l', snd (aWrites ns ws X lv))"
      "rel ns l' (fst (aWrites ns ws X lv))" by blast
    then show ?thesis using il False by simp
  qed
qed

lemma rel_sweepModifies:
  assumes "rel ns l X" "list_all (\<lambda>a. a < length ns) ms"
  shows "sweepModifies ms l lv = Some (aModifies ms X lv)"
  using assms(2)
proof (induction ms arbitrary: lv)
  case Nil
  then show ?case by simp
next
  case (Cons m ms)
  then have m: "m < length ns" and rest: "list_all (\<lambda>a. a < length ns) ms" by simp_all
  have il: "IsLive l m = Some (X m)" by (rule rel_IsLive[OF assms(1) m])
  show ?case using il Cons.IH[OF rest] by (cases "X m") simp_all
qed

lemma addressesOK_behaviour:
  assumes "addressesOK n g" "i < length (Behaviours g)"
  shows "list_all (\<lambda>a. a < n) (Reads (Behaviours g ! i))"
    and "list_all (\<lambda>a. a < n) (Modifies (Behaviours g ! i))"
    and "list_all (\<lambda>a. a < n) (Writes (Behaviours g ! i))"
  using assms by (simp_all add: addressesOK_def list_all_length)

lemma addressesOK_roots:
  assumes "addressesOK n g"
  shows "list_all (\<lambda>a. a < n) (map fst (Roots g))"
  using assms by (simp add: addressesOK_def list_all_iff)

lemma rel_sweepStep:
  assumes r: "rel ns l X" and ok: "addressesOK (length ns) (dependencyGraph t)"
    and i: "i < length (Behaviours (dependencyGraph t))" and il: "i < length il"
  shows "\<exists>l'. sweepStep t i (il, l) = Some (fst (aStep ns t i (il, X)), l') \<and>
               rel ns l' (snd (aStep ns t i (il, X)))"
proof -
  define b where "b = Behaviours (dependencyGraph t) ! i"
  note fp = addressesOK_behaviour[OF ok i, folded b_def]
  show ?thesis
  proof (cases "Aborted b")
    case True
    have "sweepStep t i (il, l) = Some (il[i := KeepAlive b], l)"
      using True i il by (simp add: sweepStep_def b_def Let_def)
    moreover have "aStep ns t i (il, X) = (il[i := KeepAlive b], X)"
      using True by (simp add: aStep_def b_def Let_def)
    ultimately show ?thesis using r by simp
  next
    case False
    define X1 where "X1 = (if i \<in> requests t
                           then aLiveAll ns (map fst (Roots (dependencyGraph t))) X else X)"
    have "\<exists>l1. (if i \<in> requests t
                 then markLiveAll (map fst (Roots (dependencyGraph t))) l
                 else Some l) = Some l1 \<and> rel ns l1 X1"
    proof (cases "i \<in> requests t")
      case True
      then show ?thesis using rel_markLiveAll[OF r addressesOK_roots[OF ok]] by (simp add: X1_def)
    next
      case False
      then show ?thesis using r by (simp add: X1_def)
    qed
    then obtain l1 where l1: "(if i \<in> requests t
                 then markLiveAll (map fst (Roots (dependencyGraph t))) l
                 else Some l) = Some l1" "rel ns l1 X1" by blast
    define lv1 where "lv1 = (KeepAlive b \<or> i \<in> requests t)"
    define X2 where "X2 = fst (aWrites ns (Writes b) X1 lv1)"
    define lv2 where "lv2 = snd (aWrites ns (Writes b) X1 lv1)"
    from rel_sweepWrites[OF l1(2) fp(3), of lv1] obtain l2 where
      l2: "sweepWrites (Writes b) l1 lv1 = Some (l2, lv2)" "rel ns l2 X2"
      by (auto simp: X2_def lv2_def)
    define lv3 where "lv3 = aModifies (Modifies b) X2 lv2"
    have m: "sweepModifies (Modifies b) l2 lv2 = Some lv3"
      unfolding lv3_def by (rule rel_sweepModifies[OF l2(2) fp(2)])
    have a: "aStep ns t i (il, X) =
               (il[i := lv3], if lv3 then aLiveAll ns (Reads b) (aLiveAll ns (Modifies b) X2) else X2)"
      using False unfolding lv3_def lv2_def X2_def lv1_def X1_def b_def
      by (simp add: aStep_def Let_def)
    show ?thesis
    proof (cases lv3)
      case True
      from rel_markLiveAll[OF l2(2) fp(2)] obtain l3 where
        l3: "markLiveAll (Modifies b) l2 = Some l3" "rel ns l3 (aLiveAll ns (Modifies b) X2)" by blast
      from rel_markLiveAll[OF l3(2) fp(1)] obtain l4 where
        l4: "markLiveAll (Reads b) l3 = Some l4"
            "rel ns l4 (aLiveAll ns (Reads b) (aLiveAll ns (Modifies b) X2))" by blast
      have "sweepStep t i (il, l) = Some (il[i := lv3], l4)"
        using False i il l1(1) l2(1) m True l3(1) l4(1)
        by (simp add: sweepStep_def Let_def b_def[symmetric] lv1_def[symmetric])
      then show ?thesis using a True l4(2) by simp
    next
      case F: False
      have "sweepStep t i (il, l) = Some (il[i := lv3], l2)"
        using False i il l1(1) l2(1) m F
        by (simp add: sweepStep_def Let_def b_def[symmetric] lv1_def[symmetric])
      then show ?thesis using a F l2(2) by simp
    qed
  qed
qed

lemma aStep_length: "length (fst (aStep ns t i s)) = length (fst s)"
  by (simp add: aStep_def Let_def)

lemma aSweep_length: "length (fst (aSweep ns t i s)) = length (fst s)"
  by (induction i arbitrary: s) (simp_all add: aStep_length)

lemma rel_sweep:
  assumes "rel ns l X" and "addressesOK (length ns) (dependencyGraph t)"
    and "i < length (Behaviours (dependencyGraph t))" and "i < length il"
  shows "\<exists>l'. sweep t i (il, l) = Some (fst (aSweep ns t i (il, X)), l') \<and>
               rel ns l' (snd (aSweep ns t i (il, X)))"
  using assms
proof (induction i arbitrary: l X il)
  case 0
  then show ?case using rel_sweepStep[of ns l X t 0 il] by simp
next
  case (Suc i)
  from rel_sweepStep[OF Suc.prems] obtain l1 where
    l1: "sweepStep t (Suc i) (il, l) = Some (fst (aStep ns t (Suc i) (il, X)), l1)"
        "rel ns l1 (snd (aStep ns t (Suc i) (il, X)))" by blast
  have i1: "i < length (Behaviours (dependencyGraph t))" using Suc.prems(3) by simp
  have i2: "i < length (fst (aStep ns t (Suc i) (il, X)))"
    using Suc.prems(4) by (simp add: aStep_length)
  from Suc.IH[OF l1(2) Suc.prems(2) i1 i2] obtain l' where
    "sweep t i (fst (aStep ns t (Suc i) (il, X)), l1) =
       Some (fst (aSweep ns t i (fst (aStep ns t (Suc i) (il, X)), snd (aStep ns t (Suc i) (il, X)))), l')"
    "rel ns l' (snd (aSweep ns t i (fst (aStep ns t (Suc i) (il, X)), snd (aStep ns t (Suc i) (il, X)))))"
    by blast
  then show ?case using l1(1) by simp
qed

lemma graphOK_rel:
  assumes "graphOK g l0"
  shows "rel (nodes l0) l0 (\<lambda>a. False)"
  unfolding rel_def
  using assms newLivenessTree_inv[of "GetHierarchyStateMap g" l0]
    newLivenessTree_dead[of "GetHierarchyStateMap g" l0]
  by (simp add: graphOK_def)

lemma propagateLiveness_aSweep:
  assumes g: "graphOK (dependencyGraph t) l0"
    and lr: "lastRequest t < length (Behaviours (dependencyGraph t))"
  shows "propagateLiveness t =
           Some (fst (aSweep (nodes l0) t (lastRequest t)
                        (replicate (lastRequest t + 1) False, \<lambda>a. False)))"
proof -
  let ?il = "replicate (lastRequest t + 1) False"
  have ok: "addressesOK (length (nodes l0)) (dependencyGraph t)" using g by (simp add: graphOK_def)
  have nt: "newLivenessTree (GetHierarchyStateMap (dependencyGraph t)) = Some l0"
    using g by (simp add: graphOK_def)
  have at: "length (Atoms (dependencyGraph t)) = length (Behaviours (dependencyGraph t))"
    using g by (simp add: graphOK_def)
  have "lastRequest t < length ?il" by simp
  from rel_sweep[OF graphOK_rel[OF g] ok lr this] obtain l' where
    l': "sweep t (lastRequest t) (?il, l0) =
          Some (fst (aSweep (nodes l0) t (lastRequest t) (?il, \<lambda>a. False)), l')" by blast
  have "length (fst (aSweep (nodes l0) t (lastRequest t) (?il, \<lambda>a. False))) = lastRequest t + 1"
    by (simp add: aSweep_length)
  then show ?thesis using l' nt lr at by (simp add: propagateLiveness_def)
qed

subsection \<open>What the sweep stores at an index\<close>

lemma aStep_other: "j \<noteq> i \<Longrightarrow> fst (aStep ns t i s) ! j = fst s ! j"
  by (simp add: aStep_def Let_def)

lemma aSweep_above: "i < q \<Longrightarrow> fst (aSweep ns t i s) ! q = fst s ! q"
  by (induction i arbitrary: s) (simp_all add: aStep_other)

lemma aWrites_lv: "lv \<Longrightarrow> snd (aWrites ns ws X lv)"
  by (induction ws arbitrary: X lv) simp_all

lemma aModifies_lv: "lv \<Longrightarrow> aModifies ms X lv"
  by (induction ms arbitrary: lv) simp_all

lemma aStep_value_aborted:
  "Aborted (Behaviours (dependencyGraph t) ! i) \<Longrightarrow> i < length (fst s) \<Longrightarrow>
   fst (aStep ns t i s) ! i = KeepAlive (Behaviours (dependencyGraph t) ! i)"
  by (simp add: aStep_def Let_def)

lemma aStep_value_live:
  "\<not> Aborted (Behaviours (dependencyGraph t) ! i) \<Longrightarrow>
   KeepAlive (Behaviours (dependencyGraph t) ! i) \<or> i \<in> requests t \<Longrightarrow> i < length (fst s) \<Longrightarrow>
   fst (aStep ns t i s) ! i"
  by (simp add: aStep_def Let_def aWrites_lv aModifies_lv)

lemma aSweep_at:
  "q \<le> i \<Longrightarrow> i < length (fst s) \<Longrightarrow>
   \<exists>s'. length (fst s') = length (fst s) \<and> fst (aSweep ns t i s) ! q = fst (aStep ns t q s') ! q"
proof (induction i arbitrary: s)
  case 0
  then have "length (fst s) = length (fst s) \<and>
             fst (aSweep ns t 0 s) ! q = fst (aStep ns t q s) ! q" by simp
  then show ?case by blast
next
  case (Suc i)
  show ?case
  proof (cases "q = Suc i")
    case True
    have "fst (aSweep ns t (Suc i) s) ! q = fst (aStep ns t (Suc i) s) ! q"
      using True by (simp add: aSweep_above)
    then show ?thesis using True by blast
  next
    case False
    then have q: "q \<le> i" using Suc.prems(1) by simp
    have "i < length (fst (aStep ns t (Suc i) s))" using Suc.prems(2) by (simp add: aStep_length)
    from Suc.IH[OF q this] obtain s' where
      "length (fst s') = length (fst (aStep ns t (Suc i) s))"
      "fst (aSweep ns t i (aStep ns t (Suc i) s)) ! q = fst (aStep ns t q s') ! q" by blast
    then have "length (fst s') = length (fst s) \<and>
               fst (aSweep ns t (Suc i) s) ! q = fst (aStep ns t q s') ! q"
      by (simp add: aStep_length)
    then show ?thesis by blast
  qed
qed

subsection \<open>Requests\<close>

lemma requestAll_snoc: "requestAll g (ids @ [i]) = Request (requestAll g ids) i"
  by (simp add: requestAll_def)

lemma requestAll_fields:
  "dependencyGraph (requestAll g ids) = g \<and> requests (requestAll g ids) = set ids \<and>
   lastRequest (requestAll g ids) = Max (insert 0 (set ids))"
proof (induction ids rule: rev_induct)
  case Nil
  then show ?case by (simp add: requestAll_def NewDeadCodeElimination_def)
next
  case (snoc i ids)
  have e: "insert 0 (set (ids @ [i])) = insert i (insert 0 (set ids))" by auto
  have "Max (insert i (insert 0 (set ids))) = max i (Max (insert 0 (set ids)))"
    by (rule Max_insert) simp_all
  then have m: "Max (insert 0 (set (ids @ [i]))) = max i (Max (insert 0 (set ids)))"
    by (simp only: e)
  have l: "lastRequest (Request (requestAll g ids) i) = max i (lastRequest (requestAll g ids))"
    by (simp add: Request_def max_def)
  have "dependencyGraph (Request (requestAll g ids) i) = g"
    using snoc by (simp add: Request_def)
  moreover have "requests (Request (requestAll g ids) i) = set (ids @ [i])"
    using snoc by (simp add: Request_def)
  moreover have "lastRequest (Request (requestAll g ids) i) = Max (insert 0 (set (ids @ [i])))"
    using snoc l by (simp only: m)
  ultimately show ?case by (simp only: requestAll_snoc)
qed

lemma requestAll_graph: "dependencyGraph (requestAll g ids) = g"
  and requestAll_requests: "requests (requestAll g ids) = set ids"
  and requestAll_last: "lastRequest (requestAll g ids) = Max (insert 0 (set ids))"
  using requestAll_fields[of g ids] by simp_all

lemma requestAll_ge: "q \<in> set ids \<Longrightarrow> q \<le> lastRequest (requestAll g ids)"
  by (simp add: requestAll_last)

lemma requestAll_mono:
  "set ids \<subseteq> set ids' \<Longrightarrow> lastRequest (requestAll g ids) \<le> lastRequest (requestAll g ids')"
  unfolding requestAll_last by (rule Max_mono) auto

subsection \<open>The example graphs\<close>

lemma exGraph_ok: "graphOK exGraph exTree"
  by code_simp

lemma exAborted_ok: "graphOK exAborted exTree"
  by code_simp

lemma exKeptAborted_ok: "graphOK exKeptAborted exTree"
  by code_simp

lemma exTwoKept_ok: "graphOK exTwoKept exTree"
  by code_simp

lemmas sweep_eval =
  propagateLiveness_def sweepStep_def requestAll_def Request_def NewDeadCodeElimination_def
  GetHierarchyStateMap_def newLivenessTree_def NullStateAddress_def exMapping_def exParents_def
  noBehaviour_def zeroNode_def IsLive_def MarkLive_def MarkDead_def isLiveLoop.simps
  setAnyLive.simps Let_def

subsection \<open>Monotonicity of the sweep in the set of live addresses\<close>

lemma anc_between:
  assumes "wellFormed ns" "d < length ns" "z \<in> set (anc ns d)" "a \<in> set (anc ns d)"
  shows "a = z \<or> a \<in> set (anc ns z) \<or> z \<in> set (anc ns a)"
  using assms
proof (induction d rule: anc_induct)
  case (root d)
  then show ?case by (simp add: anc_root)
next
  case (child d p)
  show ?case
  proof (cases "a = p")
    case True
    then show ?thesis using child.prems child(4) by auto
  next
    case False
    show ?thesis
    proof (cases "z = p")
      case True
      then show ?thesis using child.prems child(4) False by auto
    next
      case F: False
      then show ?thesis using child.prems child(4) child.IH False by auto
    qed
  qed
qed

lemma upClosed_aLive:
  assumes wf: "wellFormed ns" and z: "z < length ns" and u: "upClosed ns X"
  shows "upClosed ns (aLive ns X z)"
  unfolding upClosed_def
proof (intro allI impI ballI)
  fix d a assume d: "d < length ns" and a: "a \<in> set (anc ns d)" and l: "aLive ns X z d"
  from l consider "X d" | "d = z" | "z \<in> set (anc ns d)" | "d \<in> set (anc ns z)"
    by (auto simp: aLive_def)
  then show "aLive ns X z a"
  proof cases
    case 1
    then have "X a" using u d a by (auto simp: upClosed_def)
    then show ?thesis by (simp add: aLive_def)
  next
    case 2
    then show ?thesis using a by (simp add: aLive_def)
  next
    case 3
    from anc_between[OF wf d 3 a] show ?thesis by (auto simp: aLive_def)
  next
    case 4
    have "a \<in> set (anc ns z)" by (rule anc_trans[OF wf z 4 a])
    then show ?thesis by (simp add: aLive_def)
  qed
qed

lemma upClosed_aDead:
  assumes wf: "wellFormed ns" and u: "upClosed ns X"
  shows "upClosed ns (aDead ns X z)"
  unfolding upClosed_def
proof (intro allI impI ballI)
  fix d a assume d: "d < length ns" and a: "a \<in> set (anc ns d)" and l: "aDead ns X z d"
  have ar: "a < length ns" by (rule anc_in_range[OF wf d a])
  have 1: "X a" using u d a l by (auto simp: upClosed_def aDead_def)
  have 2: "a \<noteq> z" using a l by (auto simp: aDead_def)
  have 3: "z \<notin> set (anc ns a)" using anc_trans[OF wf d a] l by (auto simp: aDead_def)
  show "aDead ns X z a" using 1 2 3 by (simp add: aDead_def)
qed

lemma upClosed_aLiveAll:
  "wellFormed ns \<Longrightarrow> list_all (\<lambda>a. a < length ns) zs \<Longrightarrow> upClosed ns X \<Longrightarrow>
   upClosed ns (aLiveAll ns zs X)"
  by (induction zs arbitrary: X) (simp_all add: upClosed_aLive)

lemma upClosed_aWrites:
  "wellFormed ns \<Longrightarrow> upClosed ns X \<Longrightarrow> upClosed ns (fst (aWrites ns ws X lv))"
  by (induction ws arbitrary: X lv) (simp_all add: upClosed_aDead)

lemma le_aLive: "le n X Y \<Longrightarrow> le n (aLive ns X z) (aLive ns Y z)"
  by (auto simp: le_def aLive_def)

lemma le_aLive_r: "le n X Y \<Longrightarrow> le n X (aLive ns Y z)"
  by (auto simp: le_def aLive_def)

lemma le_aLiveAll: "le n X Y \<Longrightarrow> le n (aLiveAll ns zs X) (aLiveAll ns zs Y)"
  by (induction zs arbitrary: X Y) (simp_all add: le_aLive)

lemma le_aLiveAll_r: "le n X Y \<Longrightarrow> le n X (aLiveAll ns zs Y)"
  by (induction zs arbitrary: Y) (simp_all add: le_aLive_r)

lemma le_aWrites:
  assumes wf: "wellFormed ns"
  shows "upClosed ns X \<Longrightarrow> le (length ns) X Y \<Longrightarrow> (lv \<longrightarrow> lv') \<Longrightarrow>
         list_all (\<lambda>a. a < length ns) ws \<Longrightarrow>
         le (length ns) (fst (aWrites ns ws X lv)) (fst (aWrites ns ws Y lv')) \<and>
         (snd (aWrites ns ws X lv) \<longrightarrow> snd (aWrites ns ws Y lv'))"
proof (induction ws arbitrary: X Y lv lv')
  case Nil
  then show ?case by simp
next
  case (Cons w ws)
  then have w: "w < length ns" and rest: "list_all (\<lambda>a. a < length ns) ws" by simp_all
  show ?case
  proof (cases "X w")
    case True
    then have Yw: "Y w" using Cons.prems(2) w by (simp add: le_def)
    have l: "le (length ns) (aDead ns X w) (aDead ns Y w)"
      using Cons.prems(2) by (auto simp: le_def aDead_def)
    have u: "upClosed ns (aDead ns X w)" by (rule upClosed_aDead[OF wf Cons.prems(1)])
    from Cons.IH[OF u l _ rest, of True True] show ?thesis using True Yw by simp
  next
    case False
    show ?thesis
    proof (cases "Y w")
      case True
      have l: "le (length ns) X (aDead ns Y w)"
        unfolding le_def aDead_def
      proof (intro allI impI conjI)
        fix a assume a: "a < length ns" and Xa: "X a"
        show "Y a" using Cons.prems(2) a Xa by (simp add: le_def)
        show "a \<noteq> w" using Xa False by auto
        show "w \<notin> set (anc ns a)"
        proof
          assume "w \<in> set (anc ns a)"
          then have "X w" using Cons.prems(1) a Xa by (auto simp: upClosed_def)
          then show False using False by simp
        qed
      qed
      from Cons.IH[OF Cons.prems(1) l _ rest, of lv True] show ?thesis using False True by simp
    next
      case F: False
      from Cons.IH[OF Cons.prems(1,2,3) rest] show ?thesis using False F by simp
    qed
  qed
qed

lemma le_aModifies:
  "le n X Y \<Longrightarrow> (lv \<longrightarrow> lv') \<Longrightarrow> list_all (\<lambda>a. a < n) ms \<Longrightarrow>
   aModifies ms X lv \<longrightarrow> aModifies ms Y lv'"
proof (induction ms arbitrary: lv lv')
  case Nil
  then show ?case by simp
next
  case (Cons m ms)
  then have m: "m < n" and rest: "list_all (\<lambda>a. a < n) ms" by simp_all
  have xy: "X m \<longrightarrow> Y m" using Cons.prems(1) m by (simp add: le_def)
  show ?case
  proof (cases "X m")
    case True
    then show ?thesis using xy Cons.IH[OF Cons.prems(1) _ rest, of True True] by simp
  next
    case False
    show ?thesis
    proof (cases "Y m")
      case True
      then show ?thesis using False Cons.IH[OF Cons.prems(1) _ rest, of lv True] by simp
    next
      case F: False
      then show ?thesis using False Cons.IH[OF Cons.prems(1,2) rest] by simp
    qed
  qed
qed

lemma aStep_mono:
  assumes wf: "wellFormed ns" and g: "dependencyGraph t' = dependencyGraph t"
    and sub: "requests t \<subseteq> requests t'"
    and ok: "addressesOK (length ns) (dependencyGraph t)"
    and i: "i < length (Behaviours (dependencyGraph t))"
    and u: "upClosed ns X" and l: "le (length ns) X Y"
    and il: "i < length il" and il': "i < length il'"
  shows "le (length ns) (snd (aStep ns t i (il, X))) (snd (aStep ns t' i (il', Y))) \<and>
         upClosed ns (snd (aStep ns t i (il, X))) \<and>
         (fst (aStep ns t i (il, X)) ! i \<longrightarrow> fst (aStep ns t' i (il', Y)) ! i)"
proof -
  define b where "b = Behaviours (dependencyGraph t) ! i"
  note fp = addressesOK_behaviour[OF ok i, folded b_def]
  note rt = addressesOK_roots[OF ok]
  show ?thesis
  proof (cases "Aborted b")
    case True
    have "aStep ns t i (il, X) = (il[i := KeepAlive b], X)"
      using True by (simp add: aStep_def b_def Let_def)
    moreover have "aStep ns t' i (il', Y) = (il'[i := KeepAlive b], Y)"
      using True by (simp add: aStep_def b_def Let_def g)
    ultimately show ?thesis using u l il il' by simp
  next
    case False
    define rs where "rs = map fst (Roots (dependencyGraph t))"
    define X1 where "X1 = (if i \<in> requests t then aLiveAll ns rs X else X)"
    define Y1 where "Y1 = (if i \<in> requests t' then aLiveAll ns rs Y else Y)"
    define lv1 where "lv1 = (KeepAlive b \<or> i \<in> requests t)"
    define lv1' where "lv1' = (KeepAlive b \<or> i \<in> requests t')"
    define X2 where "X2 = fst (aWrites ns (Writes b) X1 lv1)"
    define Y2 where "Y2 = fst (aWrites ns (Writes b) Y1 lv1')"
    define lv2 where "lv2 = snd (aWrites ns (Writes b) X1 lv1)"
    define lv2' where "lv2' = snd (aWrites ns (Writes b) Y1 lv1')"
    define lv3 where "lv3 = aModifies (Modifies b) X2 lv2"
    define lv3' where "lv3' = aModifies (Modifies b) Y2 lv2'"
    define X3 where "X3 = (if lv3 then aLiveAll ns (Reads b) (aLiveAll ns (Modifies b) X2) else X2)"
    define Y3 where "Y3 = (if lv3' then aLiveAll ns (Reads b) (aLiveAll ns (Modifies b) Y2) else Y2)"
    have a: "aStep ns t i (il, X) = (il[i := lv3], X3)"
      using False unfolding X3_def lv3_def lv2_def X2_def lv1_def X1_def rs_def b_def
      by (simp add: aStep_def Let_def)
    have a': "aStep ns t' i (il', Y) = (il'[i := lv3'], Y3)"
      using False unfolding Y3_def lv3'_def lv2'_def Y2_def lv1'_def Y1_def rs_def b_def
      by (simp add: aStep_def Let_def g)
    have rs: "list_all (\<lambda>a. a < length ns) rs" using rt by (simp add: rs_def)
    have l1: "le (length ns) X1 Y1"
      using sub l by (auto simp: X1_def Y1_def le_aLiveAll le_aLiveAll_r)
    have u1: "upClosed ns X1" using u by (simp add: X1_def upClosed_aLiveAll[OF wf rs])
    have v1: "lv1 \<longrightarrow> lv1'" using sub by (auto simp: lv1_def lv1'_def)
    from le_aWrites[OF wf u1 l1 v1 fp(3)]
    have l2: "le (length ns) X2 Y2" and v2: "lv2 \<longrightarrow> lv2'"
      by (simp_all add: X2_def Y2_def lv2_def lv2'_def)
    have u2: "upClosed ns X2" unfolding X2_def by (rule upClosed_aWrites[OF wf u1])
    have v3: "lv3 \<longrightarrow> lv3'" unfolding lv3_def lv3'_def by (rule le_aModifies[OF l2 v2 fp(2)])
    have l3: "le (length ns) X3 Y3"
      using v3 l2 by (auto simp: X3_def Y3_def le_aLiveAll le_aLiveAll_r)
    have u3: "upClosed ns X3"
      using u2 by (simp add: X3_def upClosed_aLiveAll[OF wf fp(1)] upClosed_aLiveAll[OF wf fp(2)])
    show ?thesis using a a' l3 u3 v3 il il' by simp
  qed
qed

lemma aSweep_mono:
  assumes wf: "wellFormed ns" and g: "dependencyGraph t' = dependencyGraph t"
    and sub: "requests t \<subseteq> requests t'"
    and ok: "addressesOK (length ns) (dependencyGraph t)"
  shows "i < length (Behaviours (dependencyGraph t)) \<Longrightarrow> upClosed ns X \<Longrightarrow> le (length ns) X Y \<Longrightarrow>
         i < length il \<Longrightarrow> i < length il' \<Longrightarrow> q \<le> i \<Longrightarrow>
         fst (aSweep ns t i (il, X)) ! q \<longrightarrow> fst (aSweep ns t' i (il', Y)) ! q"
proof (induction i arbitrary: X Y il il')
  case 0
  then show ?case using aStep_mono[OF wf g sub ok, of 0 X Y il il'] by simp
next
  case (Suc i)
  let ?s = "aStep ns t (Suc i) (il, X)" and ?s' = "aStep ns t' (Suc i) (il', Y)"
  from aStep_mono[OF wf g sub ok Suc.prems(1,2,3,4,5)]
  have m: "le (length ns) (snd ?s) (snd ?s')" "upClosed ns (snd ?s)"
    "fst ?s ! Suc i \<longrightarrow> fst ?s' ! Suc i" by simp_all
  show ?case
  proof (cases "q = Suc i")
    case True
    have "fst (aSweep ns t (Suc i) (il, X)) ! q = fst ?s ! q"
      using True by (simp add: aSweep_above)
    moreover have "fst (aSweep ns t' (Suc i) (il', Y)) ! q = fst ?s' ! q"
      using True by (simp add: aSweep_above)
    ultimately show ?thesis using m(3) True by simp
  next
    case False
    then have q: "q \<le> i" using Suc.prems(6) by simp
    have i1: "i < length (Behaviours (dependencyGraph t))" using Suc.prems(1) by simp
    have i2: "i < length (fst ?s)" using Suc.prems(4) by (simp add: aStep_length)
    have i3: "i < length (fst ?s')" using Suc.prems(5) by (simp add: aStep_length)
    from Suc.IH[OF i1 m(2) m(1) i2 i3 q, of ] show ?thesis by simp
  qed
qed

lemma aSweep_split:
  "i \<le> j \<Longrightarrow> \<exists>s1. aSweep ns t j s = aSweep ns t i s1 \<and> length (fst s1) = length (fst s)"
proof (induction j arbitrary: s)
  case 0
  then have "aSweep ns t 0 s = aSweep ns t i s \<and> length (fst s) = length (fst s)" by simp
  then show ?case by blast
next
  case (Suc j)
  show ?case
  proof (cases "i = Suc j")
    case True
    then have "aSweep ns t (Suc j) s = aSweep ns t i s \<and> length (fst s) = length (fst s)" by simp
    then show ?thesis by blast
  next
    case False
    then have "i \<le> j" using Suc.prems by simp
    from Suc.IH[OF this, of "aStep ns t (Suc j) s"] obtain s1 where
      "aSweep ns t j (aStep ns t (Suc j) s) = aSweep ns t i s1"
      "length (fst s1) = length (fst (aStep ns t (Suc j) s))" by blast
    then have "aSweep ns t (Suc j) s = aSweep ns t i s1 \<and> length (fst s1) = length (fst s)"
      by (simp add: aStep_length)
    then show ?thesis by blast
  qed
qed

lemma upClosed_empty: "upClosed ns (\<lambda>a. False)"
  by (simp add: upClosed_def)

lemma le_empty: "le n (\<lambda>a. False) Y"
  by (simp add: le_def)

subsection \<open>Out-of-range requests and the empty request set\<close>

lemma sweep_out_of_range:
  "\<not> i < length (Behaviours (dependencyGraph t)) \<Longrightarrow> sweep t i s = None"
  by (cases i; cases s) (simp_all add: sweepStep_def)

lemma aWrites_empty: "aWrites ns ws (\<lambda>a. False) lv = (\<lambda>a. False, lv)"
  by (induction ws) simp_all

lemma aModifies_empty: "aModifies ms (\<lambda>a. False) lv = lv"
  by (induction ms) simp_all

lemma aStep_no_requests:
  "requests t = {} \<Longrightarrow>
   fst (aStep ns t i (il, \<lambda>a. False)) = il[i := KeepAlive (Behaviours (dependencyGraph t) ! i)]"
  by (simp add: aStep_def Let_def aWrites_empty aModifies_empty)

subsection \<open>The naive tree never calls live what the tree calls dead\<close>

lemma naiveLabel_imp_marked:
  assumes wf: "wellFormed ns" and d: "d < length ns" and sub: "inSubtree ns a d"
  shows "(bn \<longrightarrow> bm) \<Longrightarrow> naiveLabel ns d bn ms \<Longrightarrow> marked ns a bm ms"
proof (induction ms arbitrary: bn bm)
  case Nil
  then show ?case by simp
next
  case (Cons m ms)
  show ?case
  proof (cases m)
    case (Live z)
    have "(if inSubtree ns z d then True else bn) \<longrightarrow>
          (if inSubtree ns a z \<or> z \<in> set (anc ns a) then True else bm)"
    proof (cases "inSubtree ns z d")
      case True
      have "inSubtree ns a z \<or> z \<in> set (anc ns a)"
      proof (cases "d = z")
        case True
        then show ?thesis using sub by simp
      next
        case False
        then have zd: "z \<in> set (anc ns d)" using True by (simp add: inSubtree_def)
        show ?thesis
        proof (cases "d = a")
          case True
          then show ?thesis using zd by simp
        next
          case F: False
          then have "a \<in> set (anc ns d)" using sub by (simp add: inSubtree_def)
          from anc_between[OF wf d zd this] show ?thesis by (auto simp: inSubtree_def)
        qed
      qed
      then show ?thesis by simp
    next
      case False
      then show ?thesis using Cons.prems(1) by simp
    qed
    from Cons.IH[OF this] Cons.prems(2) Live show ?thesis by simp
  next
    case (Dead z)
    have "(if inSubtree ns z d then False else bn) \<longrightarrow>
          (if z = a \<or> z \<in> set (anc ns a) then False else bm)"
    proof (cases "inSubtree ns z d")
      case True
      then show ?thesis by simp
    next
      case False
      have "\<not> (z = a \<or> z \<in> set (anc ns a))"
      proof
        assume z: "z = a \<or> z \<in> set (anc ns a)"
        show False
        proof (cases "d = a")
          case True
          then show ?thesis using z False by (auto simp: inSubtree_def)
        next
          case F: False
          then have ad: "a \<in> set (anc ns d)" using sub by (simp add: inSubtree_def)
          from z have "z \<in> set (anc ns d)"
          proof
            assume "z = a" then show ?thesis using ad by simp
          next
            assume "z \<in> set (anc ns a)" then show ?thesis by (rule anc_trans[OF wf d ad])
          qed
          then show ?thesis using False by (simp add: inSubtree_def)
        qed
      qed
      then show ?thesis using False Cons.prems(1) by simp
    qed
    from Cons.IH[OF this] Cons.prems(2) Dead show ?thesis by simp
  qed
qed

lemma naiveIsLive_imp_marked:
  assumes "wellFormed ns" and "naiveIsLive ns ms a"
  shows "marked ns a False ms"
proof -
  from assms(2) obtain d where d: "d < length ns" "inSubtree ns a d" "naiveLabel ns d False ms"
    by (auto simp: naiveIsLive_def list_ex_iff)
  from naiveLabel_imp_marked[OF assms(1) d(1,2) _ d(3), of False] show ?thesis by simp
qed

section \<open>The state address map: lemmas\<close>

lemma length_update_le: "length al \<le> length (AList.update k v al)"
  by (induction al) auto

lemma length_update_new: "map_of al k = None \<Longrightarrow> length (AList.update k v al) = Suc (length al)"
  by (induction al) (auto split: if_splits)

lemma addressOf_interned:
  "map_of (m_address m) s = Some a \<Longrightarrow> addressOf Parent m s = Some (a, m)"
  by (subst addressOf.simps) simp

lemma addressOf_inv_aux:
  assumes "addressOf Parent0 m0 s0 = Some r0"
  shows "length (m_address m0) \<le> length (m_address (snd r0)) \<and>
   (mappingInv m0 \<longrightarrow> length (m_address (snd r0)) \<le> 2 ^ 32 \<longrightarrow>
    mappingInv (snd r0) \<and> map_of (m_address (snd r0)) s0 = Some (fst r0) \<and> extends m0 (snd r0))"
proof (rule addressOf.raw_induct[where P = "\<lambda>P m s r.
   length (m_address m) \<le> length (m_address (snd r)) \<and>
   (mappingInv m \<longrightarrow> length (m_address (snd r)) \<le> 2 ^ 32 \<longrightarrow>
    mappingInv (snd r) \<and> map_of (m_address (snd r)) s = Some (fst r) \<and> extends m (snd r))",
        OF _ assms])
  fix addressOf :: "('a \<Rightarrow> 'a option) \<Rightarrow> 'a addressMapping \<Rightarrow> 'a option \<Rightarrow> (nat \<times> 'a addressMapping) option"
    and Parent m s r
  assume IH: "\<And>P m s r. addressOf P m s = Some r \<Longrightarrow>
   length (m_address m) \<le> length (m_address (snd r)) \<and>
   (mappingInv m \<longrightarrow> length (m_address (snd r)) \<le> 2 ^ 32 \<longrightarrow>
    mappingInv (snd r) \<and> map_of (m_address (snd r)) s = Some (fst r) \<and> extends m (snd r))"
  and body: "(case map_of (m_address m) s of
        Some a \<Rightarrow> Some (a, m)
      | None \<Rightarrow>
          (case s of
             None \<Rightarrow> None
           | Some k \<Rightarrow>
               Option.bind
                 (addressOf Parent
                    (m\<lparr>m_address := AList.update s (length (m_address m) mod 2 ^ 32) (m_address m),
                       m_key := AList.update (length (m_address m) mod 2 ^ 32) s (m_key m)\<rparr>)
                    (Parent k))
                 (\<lambda>r. Some (length (m_address m) mod 2 ^ 32,
                           (snd r)\<lparr>m_parent :=
                              AList.update (length (m_address m) mod 2 ^ 32) (fst r) (m_parent (snd r))\<rparr>)))) = Some r"
  show "length (m_address m) \<le> length (m_address (snd r)) \<and>
   (mappingInv m \<longrightarrow> length (m_address (snd r)) \<le> 2 ^ 32 \<longrightarrow>
    mappingInv (snd r) \<and> map_of (m_address (snd r)) s = Some (fst r) \<and> extends m (snd r))"
  proof (cases "map_of (m_address m) s")
    case (Some a)
    then show ?thesis using body by (auto simp: extends_def)
  next
    case None
    then obtain k where k: "s = Some k" using body by (cases s) simp_all
    let ?n = "length (m_address m)"
    let ?ad = "?n mod 2 ^ 32"
    let ?m1 = "m\<lparr>m_address := AList.update s ?ad (m_address m),
                 m_key := AList.update ?ad s (m_key m)\<rparr>"
    from body None k obtain r1 where r1: "addressOf Parent ?m1 (Parent k) = Some r1"
      and r: "r = (?ad, (snd r1)\<lparr>m_parent := AList.update ?ad (fst r1) (m_parent (snd r1))\<rparr>)"
      by (auto simp: bind_eq_Some_conv)
    have len1: "length (m_address ?m1) = Suc ?n" using None by (simp add: length_update_new)
    have mono1: "length (m_address ?m1) \<le> length (m_address (snd r1))"
      using IH[OF r1] by simp
    have mono: "?n \<le> length (m_address (snd r))" using mono1 len1 r by simp
    have main: "mappingInv (snd r) \<and> map_of (m_address (snd r)) s = Some (fst r) \<and> extends m (snd r)"
      if inv: "mappingInv m" and bound: "length (m_address (snd r)) \<le> 2 ^ 32"
    proof -
      have small: "?n < 2 ^ 32" using bound mono1 r len1 by simp
      then have ad: "?ad = ?n" by simp
      have pos: "0 < ?n" using inv by (auto simp: mappingInv_def)
      have lt: "\<And>x b. map_of (m_address m) x = Some b \<Longrightarrow> b < ?n"
        using inv unfolding mappingInv_def by blast
      have inj: "\<And>x y b. map_of (m_address m) x = Some b \<Longrightarrow> map_of (m_address m) y = Some b \<Longrightarrow> x = y"
        using inv unfolding mappingInv_def by blast
      have inv1: "mappingInv ?m1"
        unfolding mappingInv_def
      proof (intro conjI allI impI)
        show "distinct (map fst (m_address ?m1))"
          using inv by (simp add: mappingInv_def distinct_update)
        show "map_of (m_address ?m1) None = Some NullStateAddress"
          using inv k by (simp add: mappingInv_def update_conv')
        show "map_of (m_parent ?m1) NullStateAddress = Some NullStateAddress"
          using inv by (simp add: mappingInv_def)
      next
        fix s' a assume "map_of (m_address ?m1) s' = Some a"
        then have "(s' = s \<and> a = ?n) \<or> map_of (m_address m) s' = Some a"
          using ad by (auto simp: update_conv' split: if_splits)
        then show "a < length (m_address ?m1)"
          using lt[of s' a] len1 by auto
      next
        fix s1 s2 a
        assume "map_of (m_address ?m1) s1 = Some a \<and> map_of (m_address ?m1) s2 = Some a"
        then have a1: "(s1 = s \<and> a = ?n) \<or> (s1 \<noteq> s \<and> map_of (m_address m) s1 = Some a)"
          and a2: "(s2 = s \<and> a = ?n) \<or> (s2 \<noteq> s \<and> map_of (m_address m) s2 = Some a)"
          using ad by (auto simp: update_conv' split: if_splits)
        show "s1 = s2"
          using a1 a2 lt[of s1 a] lt[of s2 a] inj[of s1 a s2] by auto
      qed
      have small1: "length (m_address (snd r1)) \<le> 2 ^ 32" using bound r by simp
      from IH[OF r1] inv1 small1
      have ih: "mappingInv (snd r1)" "map_of (m_address (snd r1)) (Parent k) = Some (fst r1)"
        "extends ?m1 (snd r1)" by simp_all
      have s1: "map_of (m_address ?m1) s = Some ?n" using ad by (simp add: update_conv')
      have e: "extends m (snd r)"
        unfolding extends_def
      proof (intro allI impI)
        fix k' x assume kx: "map_of (m_address m) k' = Some x"
        then have "k' \<noteq> s" using None by auto
        then have "map_of (m_address ?m1) k' = Some x" using kx by (simp add: update_conv')
        then show "map_of (m_address (snd r)) k' = Some x"
          using ih(3) r by (simp add: extends_def)
      qed
      have f: "map_of (m_address (snd r)) s = Some (fst r)"
        using ih(3) s1 r ad by (simp add: extends_def)
      have "mappingInv (snd r)"
        using ih(1) pos r ad unfolding mappingInv_def
        by (simp add: update_conv' NullStateAddress_def)
      then show ?thesis using e f by simp
    qed
    show ?thesis using mono main by blast
  qed
qed

lemma addressOf_length:
  "addressOf Parent m s = Some r \<Longrightarrow> length (m_address m) \<le> length (m_address (snd r))"
  using addressOf_inv_aux by blast

lemma addressOf_inv:
  "addressOf Parent m s = Some r \<Longrightarrow> mappingInv m \<Longrightarrow> length (m_address (snd r)) \<le> 2 ^ 32 \<Longrightarrow>
   mappingInv (snd r) \<and> map_of (m_address (snd r)) s = Some (fst r) \<and> extends m (snd r)"
  using addressOf_inv_aux by blast

lemma addressOf_returns:
  "map_of (m_address m) None \<noteq> None \<Longrightarrow> chainEnds Parent n s \<Longrightarrow> \<exists>r. addressOf Parent m s = Some r"
proof (induction n arbitrary: m s)
  case 0
  then have "s = None" by (cases s) simp_all
  then show ?case using 0 by (subst addressOf.simps) auto
next
  case (Suc n)
  show ?case
  proof (cases "map_of (m_address m) s")
    case (Some a)
    then show ?thesis using addressOf_interned by blast
  next
    case None
    then obtain k where k: "s = Some k" using Suc.prems(1) by (cases s) simp_all
    let ?ad = "length (m_address m) mod 2 ^ 32"
    let ?m1 = "m\<lparr>m_address := AList.update s ?ad (m_address m),
                 m_key := AList.update ?ad s (m_key m)\<rparr>"
    have "map_of (m_address ?m1) None \<noteq> None" using Suc.prems(1) k by (simp add: update_conv')
    moreover have "chainEnds Parent n (Parent k)" using Suc.prems(2) k by simp
    ultimately obtain r1 where "addressOf Parent ?m1 (Parent k) = Some r1"
      using Suc.IH by blast
    then show ?thesis using None k by (subst addressOf.simps) simp
  qed
qed

lemma addressOfAll_length:
  "addressOfAll Parent m ks = Some r \<Longrightarrow> length (m_address m) \<le> length (m_address (snd r))"
proof (induction ks arbitrary: m r)
  case Nil
  then show ?case by auto
next
  case (Cons s ss)
  then obtain a m1 r1 where a: "addressOf Parent m s = Some (a, m1)"
    and r1: "addressOfAll Parent m1 ss = Some r1" and r: "snd r = snd r1"
    by (auto split: option.splits)
  from addressOf_length[OF a] Cons.IH[OF r1] r show ?case by simp
qed

lemma addressOfAll_inv:
  "addressOfAll Parent m ks = Some (as, m') \<Longrightarrow> mappingInv m \<Longrightarrow>
   length (m_address m') \<le> 2 ^ 32 \<Longrightarrow>
   mappingInv m' \<and> extends m m' \<and> length as = length ks \<and>
   (\<forall>i < length ks. map_of (m_address m') (ks ! i) = Some (as ! i))"
proof (induction ks arbitrary: m as)
  case Nil
  then show ?case by (auto simp: extends_def)
next
  case (Cons s ss)
  then obtain a m1 as1 where a: "addressOf Parent m s = Some (a, m1)"
    and r: "addressOfAll Parent m1 ss = Some (as1, m')" and as: "as = a # as1"
    by (auto split: option.splits)
  have "length (m_address m1) \<le> 2 ^ 32" using addressOfAll_length[OF r] Cons.prems(3) by simp
  with addressOf_inv[OF a Cons.prems(2)]
  have 1: "mappingInv m1" "map_of (m_address m1) s = Some a" "extends m m1" by simp_all
  from Cons.IH[OF r 1(1) Cons.prems(3)]
  have 2: "mappingInv m'" "extends m1 m'" "length as1 = length ss"
    "\<forall>i < length ss. map_of (m_address m') (ss ! i) = Some (as1 ! i)" by simp_all
  have s: "map_of (m_address m') s = Some a" using 1(2) 2(2) by (simp add: extends_def)
  have e: "extends m m'" using 1(3) 2(2) by (simp add: extends_def)
  have "\<forall>i < length (s # ss). map_of (m_address m') ((s # ss) ! i) = Some (as ! i)"
  proof (intro allI impI)
    fix i assume "i < length (s # ss)"
    then show "map_of (m_address m') ((s # ss) ! i) = Some (as ! i)"
      using s 2(4) as by (cases i) simp_all
  qed
  then show ?case using 2(1,3) e as by simp
qed

lemma addressOfAll_append:
  "addressOfAll Parent m (ks @ ks') =
     (case addressOfAll Parent m ks of
        None \<Rightarrow> None
      | Some (as, m1) \<Rightarrow>
          (case addressOfAll Parent m1 ks' of
             None \<Rightarrow> None
           | Some (as', m2) \<Rightarrow> Some (as @ as', m2)))"
  by (induction ks arbitrary: m) (auto split: option.splits)

subsection \<open>Keys without parents, up to the wrap of the addresses\<close>

lemma addressOf_noParent:
  assumes "map_of (m_address m) None = Some a0" and "map_of (m_address m) (Some k) = None"
  shows "\<exists>m'. addressOf noParent m (Some k) = Some (length (m_address m) mod 2 ^ 32, m') \<and>
              m_address m' = AList.update (Some k) (length (m_address m) mod 2 ^ 32) (m_address m)"
proof -
  let ?ad = "length (m_address m) mod 2 ^ 32"
  let ?m1 = "m\<lparr>m_address := AList.update (Some k) ?ad (m_address m),
               m_key := AList.update ?ad (Some k) (m_key m)\<rparr>"
  have "map_of (m_address ?m1) None = Some a0" using assms(1) by (simp add: update_conv')
  then have inner: "addressOf noParent ?m1 None = Some (a0, ?m1)" by (rule addressOf_interned)
  have step: "addressOf noParent m (Some k) =
          Option.bind (addressOf noParent ?m1 None)
            (\<lambda>r. Some (?ad, (snd r)\<lparr>m_parent := AList.update ?ad (fst r) (m_parent (snd r))\<rparr>))"
    by (subst addressOf.simps) (simp add: assms(2) noParent_def)
  show ?thesis unfolding step inner by simp
qed

lemma addressOfAll_noParent:
  assumes "map_of (m_address m0) None = Some a0"
  shows "(\<forall>i < n. Some i \<notin> set (map fst (m_address m0))) \<Longrightarrow>
         \<exists>m. addressOfAll noParent m0 (map Some [0..<n]) =
                Some (map (\<lambda>i. (length (m_address m0) + i) mod 2 ^ 32) [0..<n], m) \<and>
             map fst (m_address m) = map fst (m_address m0) @ map Some [0..<n] \<and>
             map_of (m_address m) None = Some a0"
proof (induction n)
  case 0
  then show ?case using assms by simp
next
  case (Suc n)
  then obtain m where m:
    "addressOfAll noParent m0 (map Some [0..<n]) =
       Some (map (\<lambda>i. (length (m_address m0) + i) mod 2 ^ 32) [0..<n], m)"
    "map fst (m_address m) = map fst (m_address m0) @ map Some [0..<n]"
    "map_of (m_address m) None = Some a0" by auto
  have len: "length (m_address m) = length (m_address m0) + n"
    using arg_cong[OF m(2), of length] by simp
  have "Some n \<notin> set (map fst (m_address m))" using Suc.prems m(2) by auto
  then have absent: "map_of (m_address m) (Some n) = None"
    by (simp add: map_of_eq_None_iff)
  from addressOf_noParent[OF m(3) absent] obtain m' where m':
    "addressOf noParent m (Some n) = Some ((length (m_address m0) + n) mod 2 ^ 32, m')"
    "m_address m' = AList.update (Some n) ((length (m_address m0) + n) mod 2 ^ 32) (m_address m)"
    using len by auto
  have keys: "map fst (m_address m') = map fst (m_address m0) @ map Some [0..<Suc n]"
    using m'(2) m(2) \<open>Some n \<notin> set (map fst (m_address m))\<close> by (simp add: update_keys)
  have nil: "map_of (m_address m') None = Some a0" using m'(2) m(3) by (simp add: update_conv')
  have "addressOfAll noParent m0 (map Some [0..<Suc n]) =
          Some (map (\<lambda>i. (length (m_address m0) + i) mod 2 ^ 32) [0..<Suc n], m')"
    using m(1) m'(1) by (simp add: addressOfAll_append)
  then show ?case using keys nil by blast
qed

lemma newAddressMapping_inv: "mappingInv newAddressMapping"
  by (simp add: mappingInv_def newAddressMapping_def NullStateAddress_def)

section \<open>Building the graph: lemmas\<close>

lemma resolveLoop_mutate_error:
  assumes "map_of ps (API env a) = None" and "behaviourProviderOf env (API env a) = None"
    and "fst (Mutate env a s) = Some e"
  shows "resolveLoop env ps s g i (a # rest) = ResolvedBehaviour (noBehaviour\<lparr>Aborted := True\<rparr>)"
  using assms by (cases "Mutate env a s") simp

subsection \<open>What \<^verbatim>\<open>IsLive\<close> returns after a sequence of marks\<close>

lemma IsLive_after_marks:
  assumes "newLivenessTree parents = Some l0" and "wellFormed (nodes l0)"
    and "list_all (\<lambda>m. markAddress m < length (nodes l0)) ms" and "a < length (nodes l0)"
  shows "\<exists>l. applyMarks ms l0 = Some l \<and> IsLive l a = Some (marked (nodes l0) a False ms) \<and>
             (naiveIsLive (nodes l0) ms a \<longrightarrow> IsLive l a = Some True)"
proof -
  have inv: "treeInv l0" by (rule newLivenessTree_inv[OF assms(1,2)])
  from applyMarks_marked[OF inv assms(3)] obtain l where l: "applyMarks ms l0 = Some l" "treeInv l"
    "map parent (nodes l) = map parent (nodes l0)"
    "\<forall>a < length (nodes l0). alive (nodes l) a = marked (nodes l0) a (alive (nodes l0) a) ms"
    by blast
  have len: "length (nodes l) = length (nodes l0)" using l(3) by (rule map_eq_imp_length_eq)
  have "IsLive l a = Some (alive (nodes l) a)"
    by (rule IsLive_alive[OF treeInv_wf[OF l(2)]]) (simp add: len assms(4))
  also have "alive (nodes l) a = marked (nodes l0) a False ms"
    using l(4) assms(4) newLivenessTree_dead[OF assms(1,2,4)] by simp
  finally have r: "IsLive l a = Some (marked (nodes l0) a False ms)" .
  have "naiveIsLive (nodes l0) ms a \<longrightarrow> IsLive l a = Some True"
    using naiveIsLive_imp_marked[OF assms(2), of ms a] r by simp
  then show ?thesis using l(1) r by blast
qed

section \<open>Properties\<close>

text \<open>
  C1 (as amended). For every graph the sweep can run on and every list of requests whose
  largest id is below the number of commands, \<^verbatim>\<open>propagateLiveness\<close> returns an array of
  \<open>lastRequest + 1\<close> entries whose entry at every requested id \<open>q\<close> that did not abort is
  true.
\<close>

theorem requested_live_unless_aborted:
  assumes "graphOK g l0" and "lastRequest (requestAll g ids) < length (Behaviours g)"
    and "q \<in> set ids" and "\<not> Aborted (Behaviours g ! q)"
  shows "\<exists>isLive. propagateLiveness (requestAll g ids) = Some isLive \<and>
           length isLive = lastRequest (requestAll g ids) + 1 \<and> isLive ! q"
proof -
  let ?t = "requestAll g ids"
  let ?s = "(replicate (lastRequest ?t + 1) False, \<lambda>a. False)"
  have g: "dependencyGraph ?t = g" by (rule requestAll_graph)
  have p: "propagateLiveness ?t = Some (fst (aSweep (nodes l0) ?t (lastRequest ?t) ?s))"
    by (rule propagateLiveness_aSweep) (simp_all add: g assms)
  have q: "q \<le> lastRequest ?t" by (rule requestAll_ge[OF assms(3)])
  from aSweep_at[OF q, of ?s "nodes l0" ?t] obtain s' where
    s': "length (fst s') = lastRequest ?t + 1"
        "fst (aSweep (nodes l0) ?t (lastRequest ?t) ?s) ! q = fst (aStep (nodes l0) ?t q s') ! q"
    by auto
  have "fst (aStep (nodes l0) ?t q s') ! q"
    by (rule aStep_value_live) (use assms q s' in \<open>simp_all add: g requestAll_requests\<close>)
  then show ?thesis using p s'(2) by (simp add: aSweep_length)
qed

text \<open>The theorem on the graph where command 0 writes the parent state and command 1,
  requested, reads the child state.\<close>

theorem requested_live_unless_aborted_witness:
  "\<exists>isLive. propagateLiveness (requestAll exGraph [1]) = Some isLive \<and> length isLive = 2 \<and> isLive ! 1"
proof -
  have l: "lastRequest (requestAll exGraph [1]) = 1"
    by (simp add: requestAll_def Request_def NewDeadCodeElimination_def)
  have b: "lastRequest (requestAll exGraph [1]) < length (Behaviours exGraph)"
    unfolding l by (simp add: exGraph_def)
  have q: "(1::nat) \<in> set [1]" by simp
  have a: "\<not> Aborted (Behaviours exGraph ! 1)" by (simp add: exGraph_def noBehaviour_def)
  from requested_live_unless_aborted[OF exGraph_ok b q a] show ?thesis
    unfolding l by (simp add: numeral_2_eq_2)
qed

text \<open>C1 as stated fails on a requested command that aborted: the sweep skips it before
  it looks at the requests.\<close>

theorem requested_aborted_counterexample:
  "0 \<in> requests (requestAll exAborted [0]) \<and>
   lastRequest (requestAll exAborted [0]) < length (Atoms exAborted) \<and>
   propagateLiveness (requestAll exAborted [0]) = Some [False]"
  by (simp add: sweep_eval exAborted_def)

text \<open>
  C2 (what the code does where it departs from the naive definition). On the tree of the
  parent map \<open>{0: 0, 1: 0, 2: 1}\<close>, after \<^verbatim>\<open>MarkLive(2)\<close> and \<^verbatim>\<open>MarkDead(2)\<close>, the node of
  address 1 is not live and still has \<open>anyLive\<close> set, and \<^verbatim>\<open>IsLive(1)\<close> returns true; under
  the naive definition no address of the subtree of address 1 is live, read as relabelling
  of subtrees or word by word. \<^verbatim>\<open>MarkDead\<close> does not undo what \<^verbatim>\<open>setAnyLive\<close> wrote into the
  ancestors.
\<close>

theorem IsLive_stale_after_MarkDead:
  "newLivenessTree exParents = Some exTree \<and> wellFormed (nodes exTree) \<and>
   map_option (\<lambda>l. (live (nodes l ! 1), anyLive (nodes l ! 1))) (applyMarks [Live 2, Dead 2] exTree)
     = Some (False, True) \<and>
   Option.bind (applyMarks [Live 2, Dead 2] exTree) (\<lambda>l. IsLive l 1) = Some True \<and>
   \<not> naiveIsLive (nodes exTree) [Live 2, Dead 2] 1 \<and>
   \<not> literalIsLive (nodes exTree) [Live 2, Dead 2] 1"
proof (intro conjI)
  show "newLivenessTree exParents = Some exTree" by (rule exTree_built)
  show "wellFormed (nodes exTree)" by (rule exTree_wellFormed)
  show "map_option (\<lambda>l. (live (nodes l ! 1), anyLive (nodes l ! 1)))
          (applyMarks [Live 2, Dead 2] exTree) = Some (False, True)"
    by (simp add: setAnyLive.simps MarkLive_def MarkDead_def exTree_def zeroNode_def Let_def)
  show "Option.bind (applyMarks [Live 2, Dead 2] exTree) (\<lambda>l. IsLive l 1) = Some True"
    by (simp add: setAnyLive.simps isLiveLoop.simps IsLive_def MarkLive_def MarkDead_def
          exTree_def zeroNode_def Let_def)
  show "\<not> naiveIsLive (nodes exTree) [Live 2, Dead 2] 1" by code_simp
  show "\<not> literalIsLive (nodes exTree) [Live 2, Dead 2] 1" by code_simp
qed

text \<open>
  C3 (as amended). For every graph the sweep can run on, every list of requests whose
  largest id is below the number of commands and every command id \<open>i \<le> lastRequest\<close> that
  aborted, the sweep yields \<open>isLive[i] = keepAlive\<close> of that command: false when the command
  is not kept alive, whether it was requested or not, and true when it is.
\<close>

theorem aborted_live_iff_keepAlive:
  assumes "graphOK g l0" and "lastRequest (requestAll g ids) < length (Behaviours g)"
    and "i \<le> lastRequest (requestAll g ids)" and "Aborted (Behaviours g ! i)"
  shows "\<exists>isLive. propagateLiveness (requestAll g ids) = Some isLive \<and>
           isLive ! i = KeepAlive (Behaviours g ! i)"
proof -
  let ?t = "requestAll g ids"
  let ?s = "(replicate (lastRequest ?t + 1) False, \<lambda>a. False)"
  have g: "dependencyGraph ?t = g" by (rule requestAll_graph)
  have p: "propagateLiveness ?t = Some (fst (aSweep (nodes l0) ?t (lastRequest ?t) ?s))"
    by (rule propagateLiveness_aSweep) (simp_all add: g assms)
  from aSweep_at[OF assms(3), of ?s "nodes l0" ?t] obtain s' where
    s': "length (fst s') = lastRequest ?t + 1"
        "fst (aSweep (nodes l0) ?t (lastRequest ?t) ?s) ! i = fst (aStep (nodes l0) ?t i s') ! i"
    by auto
  have "fst (aStep (nodes l0) ?t i s') ! i = KeepAlive (Behaviours (dependencyGraph ?t) ! i)"
    by (rule aStep_value_aborted) (use assms s' in \<open>simp_all add: g\<close>)
  then show ?thesis using p s'(2) by (simp add: g)
qed

text \<open>The theorem on the graph whose only command aborted and is requested.\<close>

theorem aborted_live_iff_keepAlive_witness:
  "\<exists>isLive. propagateLiveness (requestAll exAborted [0]) = Some isLive \<and> \<not> isLive ! 0"
proof -
  have l: "lastRequest (requestAll exAborted [0]) = 0"
    by (simp add: requestAll_def Request_def NewDeadCodeElimination_def)
  have b: "lastRequest (requestAll exAborted [0]) < length (Behaviours exAborted)"
    unfolding l by (simp add: exAborted_def)
  have i: "0 \<le> lastRequest (requestAll exAborted [0])" by simp
  have a: "Aborted (Behaviours exAborted ! 0)" by (simp add: exAborted_def noBehaviour_def)
  from aborted_live_iff_keepAlive[OF exAborted_ok b i a] show ?thesis
    by (simp add: exAborted_def noBehaviour_def)
qed

text \<open>C3 as stated fails on a command that aborted and is kept alive: command 0 is not
  requested, and the sweep reports it live.\<close>

theorem aborted_kept_counterexample:
  "0 \<notin> requests (requestAll exKeptAborted [1]) \<and>
   Aborted (Behaviours exKeptAborted ! 0) \<and>
   propagateLiveness (requestAll exKeptAborted [1]) = Some [True, True]"
  by (simp add: sweep_eval exKeptAborted_def)

text \<open>
  C4 (what the code does at a failing mutation). On a capture whose second atom belongs to
  an API without behaviour provider and fails to mutate with an error that is not a
  cancellation, \<^verbatim>\<open>Resolve\<close> stops at that atom and returns the value
  \<^verbatim>\<open>AtomBehaviour{Aborted: true}\<close> in place of the graph, and \<^verbatim>\<open>GetDependencyGraph\<close> panics
  on the type assertion: no behaviour of the graph is marked aborted, and the rest of
  the capture is not visited.
\<close>

theorem Resolve_returns_behaviour_on_mutate_error:
  "Resolve exEnv [''good'', ''bad'', ''good''] () = ResolvedBehaviour (noBehaviour\<lparr>Aborted := True\<rparr>) \<and>
   GetDependencyGraph exEnv [''good'', ''bad'', ''good''] () = None"
  by (simp add: GetDependencyGraph_def Resolve_def exEnv_def)

text \<open>
  C5. For every graph the sweep can run on and every two lists of requests, the ids of the
  first among the ids of the second, the largest id below the number of commands: both
  sweeps return, and every command id covered by the first sweep that it reports live is
  reported live by the second sweep as well.
\<close>

theorem liveness_monotone_in_requests:
  assumes "graphOK g l0" and "set ids \<subseteq> set ids'"
    and "lastRequest (requestAll g ids') < length (Behaviours g)"
  shows "\<exists>isLive isLive'.
           propagateLiveness (requestAll g ids) = Some isLive \<and>
           propagateLiveness (requestAll g ids') = Some isLive' \<and>
           length isLive \<le> length isLive' \<and>
           (\<forall>i < length isLive. isLive ! i \<longrightarrow> isLive' ! i)"
proof -
  let ?t = "requestAll g ids" and ?t' = "requestAll g ids'"
  let ?L = "lastRequest ?t" and ?L' = "lastRequest ?t'"
  let ?s = "(replicate (?L + 1) False, \<lambda>a. False)"
  let ?s' = "(replicate (?L' + 1) False, \<lambda>a. False)"
  let ?ns = "nodes l0"
  have g: "dependencyGraph ?t = g" and g': "dependencyGraph ?t' = g"
    by (rule requestAll_graph)+
  have LL: "?L \<le> ?L'" by (rule requestAll_mono[OF assms(2)])
  have Lb: "?L < length (Behaviours g)" using LL assms(3) by simp
  have wf: "wellFormed ?ns" using assms(1) by (simp add: graphOK_def)
  have ok: "addressesOK (length ?ns) (dependencyGraph ?t)" using assms(1) by (simp add: graphOK_def g)
  have p: "propagateLiveness ?t = Some (fst (aSweep ?ns ?t ?L ?s))"
    by (rule propagateLiveness_aSweep) (simp_all add: g assms Lb)
  have p': "propagateLiveness ?t' = Some (fst (aSweep ?ns ?t' ?L' ?s'))"
    by (rule propagateLiveness_aSweep) (simp_all add: g' assms)
  from aSweep_split[OF LL, of ?ns ?t' ?s'] obtain s1 where
    s1: "aSweep ?ns ?t' ?L' ?s' = aSweep ?ns ?t' ?L s1" "length (fst s1) = ?L' + 1" by auto
  have sub: "requests ?t \<subseteq> requests ?t'" using assms(2) by (simp add: requestAll_requests)
  have gg: "dependencyGraph ?t' = dependencyGraph ?t" by (simp add: g g')
  have "\<forall>i < ?L + 1. fst (aSweep ?ns ?t ?L ?s) ! i \<longrightarrow> fst (aSweep ?ns ?t' ?L' ?s') ! i"
  proof (intro allI impI)
    fix i assume i: "i < ?L + 1" and lv: "fst (aSweep ?ns ?t ?L ?s) ! i"
    have "fst (aSweep ?ns ?t ?L (replicate (?L + 1) False, \<lambda>a. False)) ! i \<longrightarrow>
          fst (aSweep ?ns ?t' ?L (fst s1, snd s1)) ! i"
      by (rule aSweep_mono[OF wf gg sub ok])
         (use Lb LL i s1(2) in \<open>simp_all add: g upClosed_empty le_empty\<close>)
    then show "fst (aSweep ?ns ?t' ?L' ?s') ! i" using lv s1(1) by simp
  qed
  then show ?thesis using p p' LL by (simp add: aSweep_length)
qed

text \<open>The theorem on the example graph, for the requests \<open>{0}\<close> and \<open>{0, 1}\<close>: command 0 is
  live in both sweeps.\<close>

theorem liveness_monotone_in_requests_witness:
  "\<exists>isLive isLive'.
     propagateLiveness (requestAll exGraph [0]) = Some isLive \<and>
     propagateLiveness (requestAll exGraph [0, 1]) = Some isLive' \<and>
     isLive ! 0 \<and> isLive' ! 0"
proof -
  have s: "set [0::nat] \<subseteq> set [0, 1]" by simp
  have b: "lastRequest (requestAll exGraph [0, 1]) < length (Behaviours exGraph)"
    by (simp add: requestAll_def Request_def NewDeadCodeElimination_def exGraph_def)
  from liveness_monotone_in_requests[OF exGraph_ok s b] obtain isLive isLive' where
    r: "propagateLiveness (requestAll exGraph [0]) = Some isLive"
       "propagateLiveness (requestAll exGraph [0, 1]) = Some isLive'"
       "\<forall>i < length isLive. isLive ! i \<longrightarrow> isLive' ! i" by blast
  have e: "propagateLiveness (requestAll exGraph [0]) = Some [True]"
    by (simp add: sweep_eval exGraph_def)
  then have "isLive = [True]" using r(1) by simp
  then have "isLive ! 0 \<and> isLive' ! 0" using r(3) by simp
  then show ?thesis using r(1,2) by blast
qed

text \<open>
  C6 (as amended). \<^verbatim>\<open>Request\<close> checks nothing: for every transform and every id it returns
  the transform with the id among the requests and \<open>lastRequest\<close> at least the id; and when
  the id is not below the number of commands, the sweep run afterwards does not return
  (it indexes \<^verbatim>\<open>Behaviours\<close> out of range).
\<close>

theorem Request_accepts_any_id:
  "i \<in> requests (Request t i) \<and> i \<le> lastRequest (Request t i) \<and>
   dependencyGraph (Request t i) = dependencyGraph t \<and>
   (length (Behaviours (dependencyGraph t)) \<le> i \<longrightarrow> propagateLiveness (Request t i) = None)"
proof -
  have r: "i \<in> requests (Request t i)" "i \<le> lastRequest (Request t i)"
    "dependencyGraph (Request t i) = dependencyGraph t"
    by (simp_all add: Request_def)
  have "propagateLiveness (Request t i) = None"
    if "length (Behaviours (dependencyGraph t)) \<le> i"
  proof -
    have "\<not> lastRequest (Request t i) < length (Behaviours (dependencyGraph (Request t i)))"
      using that r(2,3) by simp
    then have "\<And>s. sweep (Request t i) (lastRequest (Request t i)) s = None"
      by (rule sweep_out_of_range)
    then show ?thesis by (simp add: propagateLiveness_def split: option.splits)
  qed
  then show ?thesis using r by blast
qed

text \<open>The theorem on the graph with one command, for the id 1.\<close>

theorem Request_accepts_any_id_witness:
  "1 \<in> requests (Request (NewDeadCodeElimination exAborted) 1) \<and>
   propagateLiveness (Request (NewDeadCodeElimination exAborted) 1) = None"
proof -
  have "length (Behaviours (dependencyGraph (NewDeadCodeElimination exAborted))) \<le> 1"
    by (simp add: NewDeadCodeElimination_def exAborted_def)
  then show ?thesis using Request_accepts_any_id[of 1 "NewDeadCodeElimination exAborted"] by blast
qed

text \<open>C6 as stated fails there: the id 1 is not below the number of commands, the request
  is recorded all the same, and the sweep runs with \<open>lastRequest = 1\<close> and does not return.\<close>

theorem Request_out_of_range_counterexample:
  "length (Atoms exAborted) = 1 \<and>
   requests (Request (NewDeadCodeElimination exAborted) 1) = {1} \<and>
   lastRequest (Request (NewDeadCodeElimination exAborted) 1) = 1 \<and>
   propagateLiveness (Request (NewDeadCodeElimination exAborted) 1) = None"
  by (simp add: sweep_eval exAborted_def)

text \<open>
  C7 (as amended). For every graph the sweep can run on with at least one command, if
  \<^verbatim>\<open>Flush\<close> is invoked with no request made, \<open>lastRequest\<close> is 0 and the sweep covers command
  0 only: no command is made live by request marking, command 0 is emitted exactly when
  its \<open>keepAlive\<close> is set, and no command with a larger id is emitted.
\<close>

theorem Flush_without_requests:
  assumes "graphOK g l0" and "0 < length (Behaviours g)"
  shows "Flush (NewDeadCodeElimination g) =
           Some (if KeepAlive (Behaviours g ! 0) then [(0, Atoms g ! 0)] else [])"
proof -
  let ?t = "NewDeadCodeElimination g"
  have f: "dependencyGraph ?t = g" "requests ?t = {}" "lastRequest ?t = 0"
    by (simp_all add: NewDeadCodeElimination_def)
  have "propagateLiveness ?t =
          Some (fst (aSweep (nodes l0) ?t (lastRequest ?t)
                       (replicate (lastRequest ?t + 1) False, \<lambda>a. False)))"
    by (rule propagateLiveness_aSweep) (use assms in \<open>simp_all add: f\<close>)
  also have "\<dots> = Some [KeepAlive (Behaviours g ! 0)]"
    using aStep_no_requests[OF f(2), of "nodes l0" 0 "[False]"] by (simp add: f)
  finally show ?thesis by (simp add: Flush_def f)
qed

text \<open>The theorem on the graph with two commands that are both kept alive.\<close>

theorem Flush_without_requests_witness:
  "Flush (NewDeadCodeElimination exTwoKept) = Some [(0, ''cmd0'')]"
proof -
  have b: "0 < length (Behaviours exTwoKept)" by (simp add: exTwoKept_def)
  from Flush_without_requests[OF exTwoKept_ok b] show ?thesis
    by (simp add: exTwoKept_def noBehaviour_def)
qed

text \<open>C7 as stated fails there: command 1 is kept alive and did not abort, and it is not
  emitted.\<close>

theorem Flush_without_requests_counterexample:
  "KeepAlive (Behaviours exTwoKept ! 1) \<and> \<not> Aborted (Behaviours exTwoKept ! 1) \<and>
   Flush (NewDeadCodeElimination exTwoKept) = Some [(0, ''cmd0'')]"
  by (simp add: Flush_def sweep_eval exTwoKept_def)

text \<open>
  C8 (as amended). For every list of keys interned one after the other from the initial
  map of \<^verbatim>\<open>Resolve\<close>, as long as the address map holds at most \<open>2^32\<close> keys: two calls of
  \<^verbatim>\<open>addressOf\<close> return the same address exactly when their keys are the same; \<^verbatim>\<open>addressOf\<close>
  of a key interned before returns the address its first call returned and leaves the map
  unchanged; the nil key has the null address, which is its own parent; and \<^verbatim>\<open>addressOf\<close>
  returns for every key whose chain of parents ends.
\<close>

theorem addressOf_same_address_iff_same_key:
  assumes "addressOfAll Parent newAddressMapping ks = Some (as, m)"
    and "length (m_address m) \<le> 2 ^ 32"
  shows "length as = length ks \<and>
         (\<forall>i < length ks. \<forall>j < length ks. (as ! i = as ! j) = (ks ! i = ks ! j)) \<and>
         (\<forall>i < length ks. addressOf Parent m (ks ! i) = Some (as ! i, m)) \<and>
         addressOf Parent m None = Some (NullStateAddress, m) \<and>
         map_of (m_parent m) NullStateAddress = Some NullStateAddress \<and>
         (\<forall>n s. chainEnds Parent n s \<longrightarrow> (\<exists>r. addressOf Parent m s = Some r))"
proof -
  from addressOfAll_inv[OF assms(1) newAddressMapping_inv assms(2)]
  have inv: "mappingInv m" and len: "length as = length ks"
    and st: "\<forall>i < length ks. map_of (m_address m) (ks ! i) = Some (as ! i)" by simp_all
  have inj: "\<And>s s' a. map_of (m_address m) s = Some a \<Longrightarrow> map_of (m_address m) s' = Some a \<Longrightarrow> s = s'"
    using inv unfolding mappingInv_def by blast
  have 2: "\<forall>i < length ks. \<forall>j < length ks. (as ! i = as ! j) = (ks ! i = ks ! j)"
  proof (intro allI impI)
    fix i j assume i: "i < length ks" and j: "j < length ks"
    have si: "map_of (m_address m) (ks ! i) = Some (as ! i)" using st i by blast
    have sj: "map_of (m_address m) (ks ! j) = Some (as ! j)" using st j by blast
    show "(as ! i = as ! j) = (ks ! i = ks ! j)"
    proof
      assume "as ! i = as ! j"
      then show "ks ! i = ks ! j" using inj[OF si] sj by simp
    next
      assume "ks ! i = ks ! j"
      then show "as ! i = as ! j" using si sj by simp
    qed
  qed
  have 3: "\<forall>i < length ks. addressOf Parent m (ks ! i) = Some (as ! i, m)"
    using st addressOf_interned by blast
  have nil: "map_of (m_address m) None = Some NullStateAddress" using inv by (simp add: mappingInv_def)
  then have 4: "addressOf Parent m None = Some (NullStateAddress, m)" by (rule addressOf_interned)
  have 5: "map_of (m_parent m) NullStateAddress = Some NullStateAddress"
    using inv by (simp add: mappingInv_def)
  have "map_of (m_address m) None \<noteq> None" using nil by simp
  then have 6: "\<forall>n s. chainEnds Parent n s \<longrightarrow> (\<exists>r. addressOf Parent m s = Some r)"
    using addressOf_returns by blast
  show ?thesis using len 2 3 4 5 6 by blast
qed

text \<open>The theorem on the calls for the keys \<open>''C''\<close>, \<open>''P''\<close> and \<open>''C''\<close> again: the parent
  \<open>''P''\<close> is interned with \<open>''C''\<close>, at the address 2.\<close>

theorem addressOf_same_address_iff_same_key_witness:
  "addressOfAll exParent newAddressMapping [Some ''C'', Some ''P'', Some ''C''] =
     Some ([1, 2, 1], exInterned) \<and>
   addressOf exParent exInterned (Some ''C'') = Some (1, exInterned) \<and>
   addressOf exParent exInterned (Some ''P'') = Some (2, exInterned)"
proof -
  have i: "addressOfAll exParent newAddressMapping [Some ''C'', Some ''P'', Some ''C''] =
             Some ([1, 2, 1], exInterned)"
    by (simp add: addressOf.simps newAddressMapping_def exInterned_def exParent_def
          NullStateAddress_def)
  have l: "length (m_address exInterned) \<le> 2 ^ 32" by (simp add: exInterned_def)
  from addressOf_same_address_iff_same_key[OF i l]
  have a: "\<And>i. i < 3 \<Longrightarrow>
          addressOf exParent exInterned ([Some ''C'', Some ''P'', Some ''C''] ! i) =
            Some ([1, 2, 1] ! i, exInterned)" by simp
  from a[of 0] a[of 1] show ?thesis using i by simp
qed

text \<open>C8 as stated fails once \<open>2^32\<close> keys are interned: \<^verbatim>\<open>StateAddress(len(m.address))\<close> keeps
  32 bits, so the key interned when the map holds \<open>2^32\<close> keys (the nil key and the keys
  \<open>0\<close> to \<open>manyKeys - 1\<close>) receives the address 0 of the nil key.\<close>

theorem addressOf_wraps_counterexample:
  "(None # map Some [0..<Suc manyKeys]) ! 0 \<noteq> (None # map Some [0..<Suc manyKeys]) ! Suc manyKeys \<and>
   (case addressOfAll noParent newAddressMapping (None # map Some [0..<Suc manyKeys]) of
      None \<Rightarrow> False
    | Some (as, m) \<Rightarrow> as ! 0 = as ! Suc manyKeys)"
proof -
  let ?m0 = "newAddressMapping :: nat addressMapping"
  have nil: "map_of (m_address ?m0) None = Some 0"
    by (simp add: newAddressMapping_def NullStateAddress_def)
  have fresh: "\<forall>i < Suc manyKeys. Some i \<notin> set (map fst (m_address ?m0))"
    by (simp add: newAddressMapping_def)
  from addressOfAll_noParent[OF nil fresh] obtain m where
    m: "addressOfAll noParent ?m0 (map Some [0..<Suc manyKeys]) =
          Some (map (\<lambda>i. (length (m_address ?m0) + i) mod 2 ^ 32) [0..<Suc manyKeys], m)"
    by blast
  have first: "addressOf noParent ?m0 None = Some (0, ?m0)" by (rule addressOf_interned[OF nil])
  have all: "addressOfAll noParent ?m0 (None # map Some [0..<Suc manyKeys]) =
          Some (0 # map (\<lambda>i. (length (m_address ?m0) + i) mod 2 ^ 32) [0..<Suc manyKeys], m)"
    using first m by (simp del: upt_Suc)
  have "map (\<lambda>i. (length (m_address ?m0) + i) mod 2 ^ 32) [0..<Suc manyKeys] ! manyKeys =
          (length (m_address ?m0) + manyKeys) mod 2 ^ 32"
    by (simp del: upt_Suc add: nth_map)
  also have "\<dots> = 0" by (simp add: newAddressMapping_def manyKeys_def)
  finally have wrap: "map (\<lambda>i. (length (m_address ?m0) + i) mod 2 ^ 32) [0..<Suc manyKeys] ! manyKeys = 0" .
  have keys: "(None # map Some [0..<Suc manyKeys]) ! 0 \<noteq>
              (None # map Some [0..<Suc manyKeys]) ! Suc manyKeys"
    by (simp del: upt_Suc add: nth_map)
  show ?thesis using keys all wrap by (simp del: upt_Suc)
qed

text \<open>
  C9. \<^verbatim>\<open>Transform\<close> panics for every atom id, atom and writer: the result is the panic,
  never a writer, so no atom given to it reaches the output.
\<close>

theorem Transform_always_panics:
  "Transform t i a out = Inl (Panic ''This transform does not accept input atoms'')"
  by (simp add: Transform_def)

text \<open>
  C10. For every behaviour and graph, \<^verbatim>\<open>Read\<close>, \<^verbatim>\<open>Modify\<close> and \<^verbatim>\<open>Write\<close> with the nil key
  return with the behaviour (its lists of reads, modifies and writes) and the graph (its
  address map) as they were.
\<close>

theorem nil_key_is_noop:
  "Read Parent b g None = Some (b, g) \<and> Modify Parent b g None = Some (b, g) \<and>
   Write Parent b g None = Some (b, g)"
  by (simp add: Read_def Modify_def Write_def)


end
